theory Spec2Isabelle
  imports Main "HOL-Library.AList" "HOL-Library.Char_ord" "HOL-Library.List_Lexorder"
begin

section \<open>Go runtime and standard-library helpers\<close>

text \<open>
  Go strings are byte sequences; they are modelled as \<open>string\<close> (a list of 8-bit
  \<open>char\<close>). A run-time panic of the Go program is a value of type \<open>error\<close>; a function
  that can panic returns \<open>error + 'a\<close> with \<open>Inl\<close> for the panic.
\<close>

datatype error =
    IndexOutOfRange      \<comment> \<open>\<open>s[i]\<close> with \<open>i \<ge> len(s)\<close>\<close>
  | SliceOutOfRange      \<comment> \<open>\<open>s[i:]\<close> with \<open>i > len(s)\<close>\<close>
  | NilDereference       \<comment> \<open>field access through a nil pointer\<close>

text \<open>\<open>strings.TrimPrefix(s, prefix)\<close>: \<open>s\<close> without the leading \<open>prefix\<close>, if it has it.\<close>

definition strings_TrimPrefix :: "string \<Rightarrow> string \<Rightarrow> string" where
  "strings_TrimPrefix s pre =
     (if take (length pre) s = pre then drop (length pre) s else s)"

text \<open>\<open>strings.TrimSuffix(s, suffix)\<close>.\<close>

definition strings_TrimSuffix :: "string \<Rightarrow> string \<Rightarrow> string" where
  "strings_TrimSuffix s suf =
     (if length suf \<le> length s \<and> drop (length s - length suf) s = suf
      then take (length s - length suf) s else s)"

text \<open>
  \<open>strings.Split(s, sep)\<close> for a one-byte separator: the pieces between the separators;
  a string without separator (the empty string too) gives one piece.
\<close>

fun strings_Split :: "string \<Rightarrow> char \<Rightarrow> string list" where
  "strings_Split [] sep = [[]]"
| "strings_Split (c # cs) sep =
     (if c = sep then [] # strings_Split cs sep
      else (case strings_Split cs sep of
              [] \<Rightarrow> [[c]]
            | piece # pieces \<Rightarrow> (c # piece) # pieces))"

text \<open>\<open>strings.Join(elems, sep)\<close>.\<close>

fun strings_Join :: "string list \<Rightarrow> string \<Rightarrow> string" where
  "strings_Join [] sep = []"
| "strings_Join [e] sep = e"
| "strings_Join (e # es) sep = e @ sep @ strings_Join es sep"

text \<open>\<open>strings.IndexByte(s, c)\<close>: the first index of \<open>c\<close>; \<open>None\<close> stands for \<open>-1\<close>.\<close>

fun strings_IndexByte :: "string \<Rightarrow> char \<Rightarrow> nat option" where
  "strings_IndexByte [] c = None"
| "strings_IndexByte (x # xs) c =
     (if x = c then Some 0 else map_option Suc (strings_IndexByte xs c))"

section \<open>The path lexer and validator (tree.go)\<close>

datatype nType = static | param | catchAll

text \<open>
  \<open>getSegmentType\<close> reads \<open>s[0]\<close> without a length check: on the empty string the Go
  program panics with an index out of range.
\<close>

fun getSegmentType :: "string \<Rightarrow> error + nType" where
  "getSegmentType [] = Inl IndexOutOfRange"
| "getSegmentType (c # cs) =
     Inr (if c = CHR '':'' then param else if c = CHR ''*'' then catchAll else static)"

text \<open>
  The loop of \<open>splitPath\<close> over the pieces of the path: \<open>segments\<close> is the slice built so
  far and \<open>cur\<close> the pending run of static pieces (\<open>cur += seg\<close>).
\<close>

fun splitPath_loop :: "string list \<Rightarrow> string list \<Rightarrow> string \<Rightarrow> error + string list" where
  "splitPath_loop [] segments cur =
     Inr (if cur \<noteq> [] then segments @ [cur] else segments)"
| "splitPath_loop (seg # rest) segments cur =
     (case getSegmentType seg of
        Inl e \<Rightarrow> Inl e
      | Inr static \<Rightarrow> splitPath_loop rest segments (cur @ seg)
      | Inr _ \<Rightarrow>
          splitPath_loop rest
            ((if cur \<noteq> [] then segments @ [cur] else segments) @ [seg]) [])"

definition splitPath :: "string \<Rightarrow> error + string list" where
  "splitPath p = splitPath_loop (strings_Split (strings_TrimPrefix p ''/'') CHR ''/'') [] []"

definition cleanPath :: "string \<Rightarrow> string" where
  "cleanPath p =
     ''/'' @ strings_Join
       (filter (\<lambda>seg. seg \<noteq> [])
          (strings_Split (strings_TrimSuffix (strings_TrimPrefix p ''/'') ''/'') CHR ''/''))
       ''/''"

text \<open>
  \<open>longestPrefix\<close>: the index loop of the source. Both reads \<open>s1[i]\<close>, \<open>s2[i]\<close> are in
  range since \<open>i < min\<close>.
\<close>

function longestPrefix_loop :: "nat \<Rightarrow> nat \<Rightarrow> string \<Rightarrow> string \<Rightarrow> string" where
  "longestPrefix_loop i m s1 s2 =
     (if i < m then
        (if s1 ! i \<noteq> s2 ! i then take i s1 else longestPrefix_loop (Suc i) m s1 s2)
      else take m s1)"
  by pat_completeness auto
termination
  by (relation "measure (\<lambda>(i, m, s1, s2). m - i)") auto

definition longestPrefix :: "string \<Rightarrow> string \<Rightarrow> string" where
  "longestPrefix s1 s2 = longestPrefix_loop 0 (min (length s1) (length s2)) s1 s2"

text \<open>The regular expression \<open>^[a-zA-Z_][a-zA-Z0-9_]*$\<close> of \<open>paramRegex\<close>.\<close>

definition isAlphaUnderscore :: "char \<Rightarrow> bool" where
  "isAlphaUnderscore c \<longleftrightarrow>
     (CHR ''a'' \<le> c \<and> c \<le> CHR ''z'') \<or> (CHR ''A'' \<le> c \<and> c \<le> CHR ''Z'') \<or> c = CHR ''_''"

definition isDigit :: "char \<Rightarrow> bool" where
  "isDigit c \<longleftrightarrow> CHR ''0'' \<le> c \<and> c \<le> CHR ''9''"

fun paramRegex_MatchString :: "string \<Rightarrow> bool" where
  "paramRegex_MatchString [] = False"
| "paramRegex_MatchString (c # cs) =
     (isAlphaUnderscore c \<and> list_all (\<lambda>d. isAlphaUnderscore d \<or> isDigit d) cs)"

text \<open>
  The loop of \<open>isValidPath\<close>: \<open>i\<close> is the index of \<open>seg\<close>, \<open>n\<close> is \<open>len(segments)\<close>,
  \<open>prevTyp\<close> the type of the last segment seen (\<open>None\<close> for the nil pointer) and \<open>keys\<close>
  the parameter segments seen so far. The test \<open>i != len(segments)-1\<close> on Go's signed
  integers is \<open>Suc i \<noteq> n\<close> on naturals.
\<close>

fun isValidPath_loop ::
  "nat \<Rightarrow> nat \<Rightarrow> string list \<Rightarrow> nType option \<Rightarrow> string set \<Rightarrow> error + bool" where
  "isValidPath_loop i n [] prevTyp keys = Inr True"
| "isValidPath_loop i n (seg # rest) prevTyp keys =
     (if seg = [] then isValidPath_loop (Suc i) n rest prevTyp keys
      else
        (case getSegmentType seg of
           Inl e \<Rightarrow> Inl e
         | Inr typ \<Rightarrow>
             if prevTyp \<noteq> None \<and> prevTyp \<noteq> Some static \<and> typ \<noteq> static then Inr False
             else if typ = catchAll \<and> Suc i \<noteq> n then Inr False
             else if typ = param \<and> seg \<in> keys then Inr False
             else if typ = param \<and> \<not> paramRegex_MatchString (tl seg) then Inr False
             else if typ = catchAll \<and> seg \<noteq> ''*'' then Inr False
             else isValidPath_loop (Suc i) n rest (Some typ)
                    (if typ = param then insert seg keys else keys)))"

definition isValidPath :: "string \<Rightarrow> error + bool" where
  "isValidPath p =
     (case splitPath p of
        Inl e \<Rightarrow> Inl e
      | Inr segments \<Rightarrow> isValidPath_loop 0 (length segments) segments None {})"

section \<open>The compressed trie (tree.go)\<close>

text \<open>
  An endpoint holds the handler (of any type \<open>'h\<close>), the cleaned pattern and the names of
  the dynamic segments from the root.
\<close>

datatype 'h endpoint = Endpoint (fn: 'h) (fullPath: string) (pKeys: "string list")

text \<open>
  A node of the trie. The Go struct holds pointers to its children; below the root no
  node is reachable along two paths, so the pointer structure is a tree and a mutation
  through a pointer is the rebuilding of the path from the root. (The one alias of the
  program, the copy of the root made by \<open>getTree\<close>, is modelled in the router section.)
  \<open>children\<close> is the \<open>map[byte]*node\<close> as an association list with unique keys;
  \<open>special0\<close>, \<open>special1\<close>, \<open>special2\<close> are the three slots of the array
  \<open>special [catchAll + 1]*node\<close>, indexed by \<open>static\<close>, \<open>param\<close>, \<open>catchAll\<close>; \<open>None\<close> is
  the nil pointer.
\<close>

datatype 'h node = Node
  (nType: nType)
  (prefix: string)
  (children: "(char \<times> 'h node) list")
  (special0: "'h node option")
  (special1: "'h node option")
  (special2: "'h node option")
  (endpoint: "'h endpoint option")

fun special :: "'h node \<Rightarrow> nType \<Rightarrow> 'h node option" where
  "special n static = special0 n"
| "special n param = special1 n"
| "special n catchAll = special2 n"

definition newNode :: "nType \<Rightarrow> string \<Rightarrow> 'h node" where
  "newNode ty pre = Node ty pre [] None None None None"

definition newTree :: "'h node" where
  "newTree = Node static [] [] None None None None"

definition newEndpoint :: "string \<Rightarrow> 'h \<Rightarrow> string list \<Rightarrow> 'h endpoint" where
  "newEndpoint path f keys = Endpoint f path keys"

fun addChild :: "'h node \<Rightarrow> char \<Rightarrow> 'h node \<Rightarrow> 'h node" where
  "addChild (Node ty pre ch s0 s1 s2 ep) label c = Node ty pre (AList.update label c ch) s0 s1 s2 ep"

fun addSpecial :: "'h node \<Rightarrow> nType \<Rightarrow> 'h node \<Rightarrow> 'h node" where
  "addSpecial (Node ty pre ch s0 s1 s2 ep) static c = Node ty pre ch (Some c) s1 s2 ep"
| "addSpecial (Node ty pre ch s0 s1 s2 ep) param c = Node ty pre ch s0 (Some c) s2 ep"
| "addSpecial (Node ty pre ch s0 s1 s2 ep) catchAll c = Node ty pre ch s0 s1 (Some c) ep"

fun clearChildren :: "'h node \<Rightarrow> 'h node" where
  "clearChildren (Node ty pre ch s0 s1 s2 ep) = Node ty pre [] None None None ep"

text \<open>\<open>n.copyFrom(node)\<close>: \<open>n\<close> takes the children, special slots and endpoint of \<open>node\<close>.\<close>

fun copyFrom :: "'h node \<Rightarrow> 'h node \<Rightarrow> 'h node" where
  "copyFrom (Node ty pre ch s0 s1 s2 ep) src =
     Node ty pre (children src) (special0 src) (special1 src) (special2 src) (endpoint src)"

fun setEndpoint :: "'h node \<Rightarrow> 'h endpoint option \<Rightarrow> 'h node" where
  "setEndpoint (Node ty pre ch s0 s1 s2 ep) e = Node ty pre ch s0 s1 s2 e"

fun setPrefix :: "'h node \<Rightarrow> string \<Rightarrow> 'h node" where
  "setPrefix (Node ty pre ch s0 s1 s2 ep) lcp = Node ty lcp ch s0 s1 s2 ep"

text \<open>A child stored in the map of a node is smaller than the node.\<close>

lemma size_map_of_children:
  "map_of ch k = Some c \<Longrightarrow> size c < Suc (size_list (size_prod (\<lambda>_. 0) size) ch)"
  by (induction ch) (auto split: if_splits)

lemma size_child: "map_of (children n) k = Some c \<Longrightarrow> size c < size n"
  using size_map_of_children [of "children n" k c] by (cases n) simp

subsection \<open>Insertion\<close>

text \<open>
  The body of \<open>tree.insert\<close> after validation. \<open>insert_segs p f cur segs keys\<close> is the
  \<open>for _, seg := range\<close> loop standing at node \<open>cur\<close> with the segments \<open>segs\<close> still to
  come and \<open>keys\<close> the parameter names collected; \<open>insert_static p f cur search segs keys\<close>
  is the inner loop \<open>for len(search) > 0\<close> of a static segment. Both return the node
  \<open>cur\<close> as it is after the insertion (the source moves the pointer \<open>cur\<close> down and
  mutates in place). A child that is changed keeps its key in the map of its parent:
  \<open>addChild cur (hd search) \<dots>\<close> stores the changed node \<open>next\<close> under the label it was
  read from. Every \<open>hd\<close> and \<open>tl\<close> below is applied to a string known to be non-empty.
\<close>

function insert_segs ::
    "string \<Rightarrow> 'h \<Rightarrow> 'h node \<Rightarrow> string list \<Rightarrow> string list \<Rightarrow> error + 'h node"
  and insert_static ::
    "string \<Rightarrow> 'h \<Rightarrow> 'h node \<Rightarrow> string \<Rightarrow> string list \<Rightarrow> string list \<Rightarrow> error + 'h node"
where
  "insert_segs p f cur [] keys = Inr (setEndpoint cur (Some (newEndpoint p f keys)))"
| "insert_segs p f cur (seg # segs) keys =
     (case getSegmentType seg of
        Inl e \<Rightarrow> Inl e
      | Inr static \<Rightarrow> insert_static p f cur seg segs keys
      | Inr param \<Rightarrow>
          (case insert_segs p f
                  (case special cur param of None \<Rightarrow> newNode param [] | Some n \<Rightarrow> n)
                  segs (keys @ [tl seg]) of
             Inl e \<Rightarrow> Inl e
           | Inr n' \<Rightarrow> Inr (addSpecial cur param n'))
      | Inr catchAll \<Rightarrow>
          (case insert_segs p f
                  (case special cur catchAll of None \<Rightarrow> newNode catchAll [] | Some n \<Rightarrow> n)
                  segs (keys @ [''*'']) of
             Inl e \<Rightarrow> Inl e
           | Inr n' \<Rightarrow> Inr (addSpecial cur catchAll n')))"
| "insert_static p f cur search segs keys =
     (if search = [] then insert_segs p f cur segs keys
      else
        (case map_of (children cur) (hd search) of
           None \<Rightarrow>
             (case insert_segs p f (newNode static search) segs keys of
                Inl e \<Rightarrow> Inl e
              | Inr new' \<Rightarrow> Inr (addChild cur (hd search) new'))
         | Some next \<Rightarrow>
             (let lcp = longestPrefix search (prefix next) in
              if length lcp < length (prefix next) then
                (let rem = drop (length lcp) (prefix next);
                     new = copyFrom (newNode static rem) next;
                     next1 = addChild
                               (setEndpoint (clearChildren (setPrefix next lcp)) None)
                               (hd rem) new
                 in
                   if length search > length lcp then
                     (case insert_segs p f (newNode static (drop (length lcp) search))
                             segs keys of
                        Inl e \<Rightarrow> Inl e
                      | Inr newSearch' \<Rightarrow>
                          Inr (addChild cur (hd search)
                                 (addChild next1 (hd (drop (length lcp) search)) newSearch')))
                   else
                     (case insert_segs p f next1 segs keys of
                        Inl e \<Rightarrow> Inl e
                      | Inr next' \<Rightarrow> Inr (addChild cur (hd search) next')))
              else
                (case insert_static p f next (drop (length lcp) search) segs keys of
                   Inl e \<Rightarrow> Inl e
                 | Inr next' \<Rightarrow> Inr (addChild cur (hd search) next')))))"
  by pat_completeness auto
termination
  by (relation "measures
        [\<lambda>x. case x of Inl (p, f, cur, segs, keys) \<Rightarrow> 2 * length segs
                  | Inr (p, f, cur, search, segs, keys) \<Rightarrow> 2 * length segs + 1,
         \<lambda>x. case x of Inl (p, f, cur, segs, keys) \<Rightarrow> 0
                  | Inr (p, f, cur, search, segs, keys) \<Rightarrow> length search + size cur]")
     (auto dest: size_child)

text \<open>
  \<open>tree.insert\<close>: clean the pattern, drop it silently when it is not valid, otherwise
  walk the segments from the root. The first panic of the Go program is the value.
\<close>

definition tree_insert :: "'h node \<Rightarrow> string \<Rightarrow> 'h \<Rightarrow> error + 'h node" where
  "tree_insert t p0 f =
     (let p = cleanPath p0 in
      case isValidPath p of
        Inl e \<Rightarrow> Inl e
      | Inr False \<Rightarrow> Inr t
      | Inr True \<Rightarrow>
          (case splitPath p of
             Inl e \<Rightarrow> Inl e
           | Inr segs \<Rightarrow> insert_segs p f t segs []))"

subsection \<open>Resolution\<close>

text \<open>
  The loop of \<open>tree.find\<close>. The state is the node \<open>cur\<close>, the label remembered by a
  partial edge match (\<open>prevLabel\<close>, \<open>None\<close> for nil), the offset \<open>start\<close> into the edge,
  the values collected and the rest \<open>p\<close> of the path. The result is \<open>Some cur\<close> when
  the loop ends (by \<open>len(p) = 0\<close> or by \<open>break\<close>) and \<open>None\<close> at the \<open>return nil\<close> inside
  the loop, with the values collected.
\<close>

function find_loop ::
  "'h node \<Rightarrow> char option \<Rightarrow> nat \<Rightarrow> string list \<Rightarrow> string
     \<Rightarrow> error + ('h node option \<times> string list)" where
  "find_loop cur prevLabel start params [] = Inr (Some cur, params)"
| "find_loop cur prevLabel start params (c # p') =
     (if c = CHR ''/'' then find_loop cur prevLabel start params p'
      else
        (let p = c # p';
             label = (case prevLabel of None \<Rightarrow> c | Some l \<Rightarrow> l)
         in
           case map_of (children cur) label of
             Some child \<Rightarrow>
               if start > length (prefix child) then Inl SliceOutOfRange
               else
                 (let lcp = longestPrefix p (drop start (prefix child)) in
                  if length lcp = 0 then Inr (Some cur, params)
                  else if length lcp + start = length (prefix child)
                  then find_loop child None 0 params (drop (length lcp) p)
                  else find_loop cur (Some label) (start + length lcp) params
                         (drop (length lcp) p))
           | None \<Rightarrow>
               (case special cur param of
                  Some pn \<Rightarrow>
                    (case strings_IndexByte p CHR ''/'' of
                       None \<Rightarrow> find_loop pn prevLabel start (params @ [p]) []
                     | Some j \<Rightarrow>
                         find_loop pn prevLabel start (params @ [take j p]) (drop (Suc j) p))
                | None \<Rightarrow>
                    (case special cur catchAll of
                       Some ca \<Rightarrow> find_loop ca prevLabel start (params @ [p]) []
                     | None \<Rightarrow> Inr (None, params)))))"
  by pat_completeness auto
termination
  by (relation "measure (\<lambda>(cur, prevLabel, start, params, p). length p)") auto

text \<open>
  The loop that fills \<open>pMap\<close>: \<open>pMap[k] = params[i]\<close> for the \<open>i\<close>-th key; the read
  \<open>params[i]\<close> panics when fewer values than keys were collected.
\<close>

fun pMap_loop ::
  "nat \<Rightarrow> string list \<Rightarrow> string list \<Rightarrow> (string \<rightharpoonup> string) \<Rightarrow> error + (string \<rightharpoonup> string)" where
  "pMap_loop i [] params pMap = Inr pMap"
| "pMap_loop i (k # ks) params pMap =
     (if i < length params then pMap_loop (Suc i) ks params (pMap(k \<mapsto> params ! i))
      else Inl IndexOutOfRange)"

text \<open>\<open>tree.find\<close>: the endpoint found (\<open>None\<close> for nil) and the parameter map.\<close>

definition tree_find ::
  "'h node \<Rightarrow> string \<Rightarrow> error + ('h endpoint option \<times> (string \<rightharpoonup> string))" where
  "tree_find t p =
     (case find_loop t None 0 [] p of
        Inl e \<Rightarrow> Inl e
      | Inr (None, params) \<Rightarrow> Inr (None, Map.empty)
      | Inr (Some cur, params) \<Rightarrow>
          (case endpoint cur of
             None \<Rightarrow> Inr (None, Map.empty)
           | Some e \<Rightarrow>
               (case pMap_loop 0 (pKeys e) params Map.empty of
                  Inl err \<Rightarrow> Inl err
                | Inr pMap \<Rightarrow> Inr (Some e, pMap))))"

subsection \<open>Listing the routes\<close>

text \<open>
  \<open>recurseCapture\<close> visits the special slots, then the children. \<open>capture_child\<close> is the
  body of either loop for one (possibly nil) child and \<open>capture_children\<close> the loop over
  the map, here in the order of the association list (Go's order is unspecified; the
  caller sorts).
\<close>

fun recurseCapture :: "string \<Rightarrow> 'h node \<Rightarrow> string list \<Rightarrow> string list"
  and capture_child :: "string \<Rightarrow> 'h node option \<Rightarrow> string list \<Rightarrow> string list"
  and capture_children :: "string \<Rightarrow> (char \<times> 'h node) list \<Rightarrow> string list \<Rightarrow> string list"
where
  "recurseCapture m (Node ty pre ch s0 s1 s2 ep) r =
     capture_children m ch (capture_child m s2 (capture_child m s1 (capture_child m s0 r)))"
| "capture_child m None r = r"
| "capture_child m (Some c) r =
     recurseCapture m c
       (case endpoint c of None \<Rightarrow> r | Some e \<Rightarrow> r @ [m @ '' '' @ fullPath e])"
| "capture_children m [] r = r"
| "capture_children m (kc # rest) r = capture_children m rest (capture_child m (Some (snd kc)) r)"

definition captureRoutes :: "'h node \<Rightarrow> string \<Rightarrow> string list" where
  "captureRoutes t m = recurseCapture m t []"

section \<open>Handlers and middleware (router.go)\<close>

text \<open>
  A request, as far as the router reads it: the method, \<open>URL.Path\<close>, the request URI and
  protocol (echoed by TRACE), the headers under their canonical names, and the value
  stored in the context under \<open>paramKey\<close> (\<open>None\<close> when absent).
\<close>

record request =
  Method :: string
  Path :: string
  RequestURI :: string
  Proto :: string
  Header :: "(string \<times> string list) list"
  reqParams :: "(string \<rightharpoonup> string) option"

text \<open>
  The world a handler acts on: the response (status line once written, headers, body)
  and \<open>events\<close>, the variables captured by the closures of the program (the slice
  \<open>order\<close> of the repository's middleware test).
\<close>

record world =
  status :: "nat option"
  headers :: "(string \<times> string) list"
  body :: string
  events :: "string list"

type_synonym handler = "request \<Rightarrow> world \<Rightarrow> world"

text \<open>
  A \<open>Middleware\<close> is a Go function from handler to handler. Go functions may act on
  the world when they are called, so applying a middleware to its next handler yields
  the wrapped handler and the world after the call.
\<close>

type_synonym middleware = "handler \<Rightarrow> world \<Rightarrow> handler \<times> world"

text \<open>
  The two calls the default handlers make on the response writer: \<open>WriteHeader\<close> fixes
  the status unless it has been written, \<open>Write\<close> writes the status 200 if none has been
  and appends the bytes to the body.
\<close>

definition WriteHeader :: "nat \<Rightarrow> world \<Rightarrow> world" where
  "WriteHeader code w = (case status w of None \<Rightarrow> w\<lparr>status := Some code\<rparr> | Some _ \<Rightarrow> w)"

definition Write :: "string \<Rightarrow> world \<Rightarrow> world" where
  "Write bs w = (let w' = WriteHeader 200 w in w'\<lparr>body := body w' @ bs\<rparr>)"

definition options :: handler where
  "options r w = w"

definition notFound :: handler where
  "notFound r w = Write ''Not found'' (WriteHeader 404 w)"

definition notAllowed :: handler where
  "notAllowed r w = Write ''Not found'' (WriteHeader 405 w)"

text \<open>
  \<open>chainMws\<close>: the loop runs \<open>i\<close> from \<open>len(mws) - 1\<close> down to \<open>0\<close>; each round wraps the
  handler built so far in a closure that, when it is called, applies \<open>mw\<close> to \<open>next\<close> and
  calls the result. \<open>chainMws_loop\<close> takes the middlewares in the order the loop visits
  them.
\<close>

definition wrap :: "middleware \<Rightarrow> handler \<Rightarrow> handler" where
  "wrap mw next = (\<lambda>r w. case mw next w of (h, w') \<Rightarrow> h r w')"

fun chainMws_loop :: "middleware list \<Rightarrow> handler \<Rightarrow> handler" where
  "chainMws_loop [] handler = handler"
| "chainMws_loop (mw # visited_later) handler = chainMws_loop visited_later (wrap mw handler)"

definition chainMws :: "middleware list \<Rightarrow> handler \<Rightarrow> handler" where
  "chainMws mws f = chainMws_loop (rev mws) f"

section \<open>The application and its routers (router.go)\<close>

datatype httpMethod = mGET | mPOST | mPUT | mPATCH | mDELETE | mWEBSOCKET

definition methodLookup :: "string \<rightharpoonup> httpMethod" where
  "methodLookup =
     [''GET'' \<mapsto> mGET, ''HEAD'' \<mapsto> mGET, ''POST'' \<mapsto> mPOST, ''PUT'' \<mapsto> mPUT,
      ''PATCH'' \<mapsto> mPATCH, ''DELETE'' \<mapsto> mDELETE, ''WS'' \<mapsto> mWEBSOCKET]"

fun reverseMethodLookup :: "httpMethod \<Rightarrow> string" where
  "reverseMethodLookup mGET = ''GET''"
| "reverseMethodLookup mPOST = ''POST''"
| "reverseMethodLookup mPUT = ''PUT''"
| "reverseMethodLookup mPATCH = ''PATCH''"
| "reverseMethodLookup mDELETE = ''DELETE''"
| "reverseMethodLookup mWEBSOCKET = ''WS''"

record AppConfig =
  AllowTrace :: bool

definition defaultAppConfig :: AppConfig where
  "defaultAppConfig = \<lparr>AllowTrace = False\<rparr>"

text \<open>
  A router: its path prefix and its middlewares. The pointer \<open>app\<close> of the Go struct is
  the one application, which the operations below take as an argument.
\<close>

record Router =
  path :: string
  mws :: "middleware list"

text \<open>
  The application. \<open>trees\<close> is \<open>map[method]tree\<close>: it holds the root nodes by value.
\<close>

record App =
  cfg :: AppConfig
  notAllowedH :: handler
  notFoundH :: handler
  optionsH :: handler
  trees :: "httpMethod \<rightharpoonup> handler node"
  rootRouter :: "Router option"

definition New :: "AppConfig list \<Rightarrow> App" where
  "New cfgs =
     \<lparr>cfg = (case cfgs of [] \<Rightarrow> defaultAppConfig | c # _ \<Rightarrow> c),
      notAllowedH = notAllowed,
      notFoundH = notFound,
      optionsH = options,
      trees = [mGET \<mapsto> newTree, mPOST \<mapsto> newTree, mPUT \<mapsto> newTree,
               mPATCH \<mapsto> newTree, mDELETE \<mapsto> newTree, mWEBSOCKET \<mapsto> newTree],
      rootRouter = None\<rparr>"

text \<open>\<open>App.Router\<close>: the new root router, and the application that remembers it.\<close>

definition App_Router :: "App \<Rightarrow> string \<Rightarrow> middleware list \<Rightarrow> Router \<times> App" where
  "App_Router a pth ms =
     (let r = \<lparr>path = pth, mws = ms\<rparr> in (r, a\<lparr>rootRouter := Some r\<rparr>))"

definition Group :: "Router \<Rightarrow> string \<Rightarrow> middleware list \<Rightarrow> Router" where
  "Group r pth ms = \<lparr>path = cleanPath (path r @ pth), mws = ms\<rparr>"

text \<open>
  \<open>getTree\<close> reads the entry of \<open>trees\<close> into a local variable \<open>n\<close> and returns \<open>&n\<close>:
  a pointer to a copy of the root struct. The copy has its own \<open>special\<close> array and its
  own \<open>endpoint\<close> field; its \<open>children\<close> field is the same Go map as the one of the entry
  in \<open>trees\<close>. A route keeps the copy together with the method whose map it shares.
\<close>

definition getTree :: "App \<Rightarrow> httpMethod \<Rightarrow> (httpMethod \<times> handler node) option" where
  "getTree a m = (case trees a m of None \<Rightarrow> None | Some n \<Rightarrow> Some (m, n))"

record route =
  route_t :: "(httpMethod \<times> handler node) option"
  route_path :: string
  route_mws :: "middleware list"

definition mkRoute :: "App \<Rightarrow> httpMethod \<Rightarrow> Router \<Rightarrow> string \<Rightarrow> middleware list \<Rightarrow> route" where
  "mkRoute a m r p ms =
     \<lparr>route_t = getTree a m, route_path = cleanPath (path r @ p), route_mws = mws r @ ms\<rparr>"

definition Get :: "App \<Rightarrow> Router \<Rightarrow> string \<Rightarrow> middleware list \<Rightarrow> route" where
  "Get a r p ms = mkRoute a mGET r p ms"

definition Post :: "App \<Rightarrow> Router \<Rightarrow> string \<Rightarrow> middleware list \<Rightarrow> route" where
  "Post a r p ms = mkRoute a mPOST r p ms"

definition Put :: "App \<Rightarrow> Router \<Rightarrow> string \<Rightarrow> middleware list \<Rightarrow> route" where
  "Put a r p ms = mkRoute a mPUT r p ms"

definition Patch :: "App \<Rightarrow> Router \<Rightarrow> string \<Rightarrow> middleware list \<Rightarrow> route" where
  "Patch a r p ms = mkRoute a mPATCH r p ms"

definition Delete :: "App \<Rightarrow> Router \<Rightarrow> string \<Rightarrow> middleware list \<Rightarrow> route" where
  "Delete a r p ms = mkRoute a mDELETE r p ms"

definition Websocket :: "App \<Rightarrow> Router \<Rightarrow> string \<Rightarrow> middleware list \<Rightarrow> route" where
  "Websocket a r p ms = mkRoute a mWEBSOCKET r p ms"

fun setChildren :: "'h node \<Rightarrow> (char \<times> 'h node) list \<Rightarrow> 'h node" where
  "setChildren (Node ty pre ch s0 s1 s2 ep) ch' = Node ty pre ch' s0 s1 s2 ep"

text \<open>
  \<open>route.Handle\<close> composes the middlewares around the handler and inserts the result
  through the pointer \<open>r.t\<close>, that is into the copy of the root. When \<open>insert\<close> runs, the
  children map of the copy holds what the map of the entry in \<open>trees\<close> holds (it is the
  same map), and what \<open>insert\<close> writes into that map, or into a node below it, is seen
  through \<open>trees\<close>; what it writes into the \<open>special\<close> array or the \<open>endpoint\<close> field of the
  copy is not, and neither is anything below such a slot. So the application after
  \<open>Handle\<close> has the entry of \<open>trees\<close> with the children of the copy after the insertion.
  With a nil \<open>r.t\<close>, \<open>insert\<close> still cleans and validates the path, and the first use of
  \<open>cur\<close> dereferences nil.
\<close>

definition Handle :: "App \<Rightarrow> route \<Rightarrow> handler \<Rightarrow> error + App" where
  "Handle a rt h =
     (case route_t rt of
        None \<Rightarrow>
          (case isValidPath (cleanPath (route_path rt)) of
             Inl e \<Rightarrow> Inl e
           | Inr False \<Rightarrow> Inr a
           | Inr True \<Rightarrow> Inl NilDereference)
      | Some (m, n) \<Rightarrow>
          (case trees a m of
             None \<Rightarrow>
               (case tree_insert n (route_path rt) (chainMws (route_mws rt) h) of
                  Inl e \<Rightarrow> Inl e
                | Inr n' \<Rightarrow> Inr a)
           | Some entry \<Rightarrow>
               (case tree_insert (setChildren n (children entry)) (route_path rt)
                       (chainMws (route_mws rt) h) of
                  Inl e \<Rightarrow> Inl e
                | Inr n' \<Rightarrow> Inr (a\<lparr>trees := (trees a)(m \<mapsto> setChildren entry (children n'))\<rparr>))))"

text \<open>\<open>App.Routes\<close>: the routes of every tree, sorted.\<close>

definition Routes :: "App \<Rightarrow> string list" where
  "Routes a =
     sort (concat (map (\<lambda>l. case trees a l of
                                None \<Rightarrow> []
                              | Some t \<Rightarrow> captureRoutes t (reverseMethodLookup l))
                       [mGET, mPOST, mPUT, mPATCH, mDELETE, mWEBSOCKET]))"

text \<open>\<open>Header.Get\<close>: the first value stored under the key, or the empty string.\<close>

definition Header_Get :: "request \<Rightarrow> string \<Rightarrow> string" where
  "Header_Get r k = (case map_of (Header r) k of Some (v # _) \<Rightarrow> v | _ \<Rightarrow> [])"

text \<open>
  \<open>strings.EqualFold\<close> on bytes: ASCII letters are compared without case, every other
  byte exactly. (Go folds Unicode code points; the foldings of code points beyond ASCII
  are not part of this byte model.)
\<close>

definition toLowerASCII :: "char \<Rightarrow> char" where
  "toLowerASCII c =
     (if CHR ''A'' \<le> c \<and> c \<le> CHR ''Z'' then char_of (of_char c + (32::nat)) else c)"

definition strings_EqualFold :: "string \<Rightarrow> string \<Rightarrow> bool" where
  "strings_EqualFold s t \<longleftrightarrow> map toLowerASCII s = map toLowerASCII t"

text \<open>The TRACE branch: the request line and the headers are written back.\<close>

definition traceEcho :: handler where
  "traceEcho r w =
     fold (\<lambda>(header, values) w'. Write (header @ '': '' @ strings_Join values '', '' @ [CHR 0x0D, CHR 0x0A]) w')
       (Header r)
       (Write (Method r @ '' '' @ RequestURI r @ '' '' @ Proto r @ [CHR 0x0D, CHR 0x0A])
          (w\<lparr>headers := AList.update ''Content-Type'' ''message/http'' (headers w)\<rparr>))"

text \<open>
  \<open>App.internalHandler\<close> (and \<open>ServeHTTP\<close>, which only calls it): the world after the
  request has been handled, or the panic of \<open>find\<close>.
\<close>

definition internalHandler :: "App \<Rightarrow> request \<Rightarrow> world \<Rightarrow> error + world" where
  "internalHandler a r0 w =
     (if Method r0 = ''TRACE'' \<and> AllowTrace (cfg a) then Inr (traceEcho r0 w)
      else if Method r0 = ''OPTIONS'' then Inr (optionsH a r0 w)
      else
        (let r = (if Header_Get r0 ''Connection'' \<noteq> [] \<and> Header_Get r0 ''Upgrade'' \<noteq> []
                     \<and> strings_EqualFold (Header_Get r0 ''Upgrade'') ''websocket''
                  then r0\<lparr>Method := ''WS''\<rparr> else r0)
         in
           case methodLookup (Method r) of
             None \<Rightarrow> Inr (notAllowedH a r w)
           | Some m \<Rightarrow>
               (case trees a m of
                  None \<Rightarrow> Inr (notFoundH a r w)
                | Some t \<Rightarrow>
                    (case tree_find t (Path r) of
                       Inl e \<Rightarrow> Inl e
                     | Inr (None, p) \<Rightarrow> Inr (notFoundH a r w)
                     | Inr (Some e, p) \<Rightarrow> Inr (fn e (r\<lparr>reqParams := Some p\<rparr>) w)))))"

definition ServeHTTP :: "App \<Rightarrow> request \<Rightarrow> world \<Rightarrow> error + world" where
  "ServeHTTP a r w = internalHandler a r w"

section \<open>Inputs used by the theorems\<close>

text \<open>
  A middleware whose application has no effect of its own, given by the function from
  handler to handler it computes.
\<close>

definition pure_mw :: "(handler \<Rightarrow> handler) \<Rightarrow> middleware" where
  "pure_mw m = (\<lambda>next w. (m next, w))"

definition log_event :: "string \<Rightarrow> world \<Rightarrow> world" where
  "log_event e w = w\<lparr>events := events w @ [e]\<rparr>"

text \<open>
  \<open>middleware1\<close> and \<open>middleware2\<close> of the repository's \<open>TestMiddlewareOrder\<close>, for any
  name: the wrapped handler appends \<open>before_name\<close>, calls \<open>next\<close>, appends \<open>after_name\<close>.
\<close>

definition order_wrapper :: "string \<Rightarrow> handler \<Rightarrow> handler" where
  "order_wrapper name next = (\<lambda>r w. log_event (''after_'' @ name) (next r (log_event (''before_'' @ name) w)))"

definition order_mw :: "string \<Rightarrow> middleware" where
  "order_mw name = pure_mw (order_wrapper name)"

text \<open>The handler of that test: it appends \<open>handler\<close>.\<close>

definition order_handler :: handler where
  "order_handler r w = log_event ''handler'' w"

text \<open>
  A middleware that records each of its applications: calling it appends \<open>apply_name\<close>
  and returns \<open>next\<close> unchanged.
\<close>

definition applied_mw :: "string \<Rightarrow> middleware" where
  "applied_mw name = (\<lambda>next w. (next, log_event (''apply_'' @ name) w))"

definition get_request :: "string \<Rightarrow> request" where
  "get_request p =
     \<lparr>Method = ''GET'', Path = p, RequestURI = p, Proto = ''HTTP/1.1'', Header = [],
      reqParams = None\<rparr>"

definition fresh_world :: world where
  "fresh_world = \<lparr>status = None, headers = [], body = [], events = []\<rparr>"

text \<open>Registering a list of patterns with their handlers in one tree, in order.\<close>

fun insert_all :: "'h node \<Rightarrow> (string \<times> 'h) list \<Rightarrow> error + 'h node" where
  "insert_all t [] = Inr t"
| "insert_all t ((p, f) # rest) =
     (case tree_insert t p f of Inl e \<Rightarrow> Inl e | Inr t' \<Rightarrow> insert_all t' rest)"

text \<open>The lookup of a path in the tree that a list of registrations builds.\<close>

definition find_after ::
  "(string \<times> 'h) list \<Rightarrow> string \<Rightarrow> error + ('h endpoint option \<times> (string \<rightharpoonup> string))" where
  "find_after rs q = (case insert_all newTree rs of Inl e \<Rightarrow> Inl e | Inr t \<Rightarrow> tree_find t q)"

text \<open>
  The start of the repository's tests: \<open>app := velocity.New()\<close> and
  \<open>router := app.Router("/")\<close>.
\<close>

definition root_app :: App where
  "root_app = snd (App_Router (New []) ''/'' [])"

definition root_router :: Router where
  "root_router = fst (App_Router (New []) ''/'' [])"

text \<open>The events of the world after the application (if there is one) served a request.\<close>

definition served_events :: "error + App \<Rightarrow> request \<Rightarrow> error + string list" where
  "served_events ea r =
     (case ea of
        Inl e \<Rightarrow> Inl e
      | Inr a \<Rightarrow> (case ServeHTTP a r fresh_world of Inl e \<Rightarrow> Inl e | Inr w \<Rightarrow> Inr (events w)))"

text \<open>
  A root router with the middleware \<open>m1\<close>, its group \<open>/g\<close> with \<open>m2\<close>, and the route
  \<open>GET /x\<close> of the group with \<open>m3\<close>.
\<close>

definition group_scenario :: "error + App" where
  "group_scenario =
     (case App_Router (New []) ''/'' [order_mw ''m1''] of
        (r, a) \<Rightarrow>
          Handle a (Get a (Group r ''/g'' [order_mw ''m2'']) ''/x'' [order_mw ''m3''])
            order_handler)"


text \<open>The tree that the routes \<open>/a/b\<close>, \<open>/a/:x\<close> and \<open>/a/*\<close> build.\<close>

definition abc_tree :: "'h \<Rightarrow> 'h \<Rightarrow> 'h \<Rightarrow> 'h node" where
  "abc_tree h1 h2 h3 =
     Node static []
       [(CHR ''a'',
         Node static ''a''
           [(CHR ''b'', Node static ''b'' [] None None None (Some (Endpoint h1 ''/a/b'' [])))]
           None
           (Some (Node param [] [] None None None (Some (Endpoint h2 ''/a/:x'' [''x'']))))
           (Some (Node catchAll [] [] None None None (Some (Endpoint h3 ''/a/*'' [''*'']))))
           None)]
       None None None None"

text \<open>
  The chain of groups \<open>/api\<close>, \<open>/v1\<close>, \<open>/admin\<close> below the root router, and the route
  \<open>GET /settings\<close> of the innermost group.
\<close>

definition settings_scenario :: "handler \<Rightarrow> error + App" where
  "settings_scenario h =
     Handle root_app
       (Get root_app (Group (Group (Group root_router ''/api'' []) ''/v1'' []) ''/admin'' [])
          ''/settings'' [])
       h"

text \<open>The tree that this registration builds.\<close>

definition settings_tree :: "'h \<Rightarrow> 'h node" where
  "settings_tree f =
     Node static []
       [(CHR ''a'', Node static ''apiv1adminsettings'' [] None None None
                      (Some (Endpoint f ''/api/v1/admin/settings'' [])))]
       None None None None"

text \<open>
  What the resolver does along one edge, byte by byte: \<open>edge_walk ts q\<close> consumes the
  bytes \<open>ts\<close> of the edge from the path \<open>q\<close>, skipping every \<open>/\<close> of the path on the
  way, and returns the rest of the path; \<open>None\<close> when the path ends or differs first.
\<close>

fun edge_walk :: "string \<Rightarrow> string \<Rightarrow> string option" where
  "edge_walk [] q = Some q"
| "edge_walk (t # ts) [] = None"
| "edge_walk (t # ts) (c # q) =
     (if c = CHR ''/'' then edge_walk (t # ts) q
      else if c = t then edge_walk ts q else None)"

section \<open>The tokens of a pattern, as the amended specification describes them\<close>

definition isStaticSeg :: "string \<Rightarrow> bool" where
  "isStaticSeg s \<longleftrightarrow> getSegmentType s = Inr static"

text \<open>
  Each maximal run of consecutive literal segments is one token, the concatenation of
  the segments of the run; a parameter or catch-all segment is a token of its own.
\<close>

function spec_tokens :: "string list \<Rightarrow> string list" where
  "spec_tokens [] = []"
| "spec_tokens (s # ss) =
     (if isStaticSeg s
      then concat (s # takeWhile isStaticSeg ss) # spec_tokens (dropWhile isStaticSeg ss)
      else s # spec_tokens ss)"
  by pat_completeness auto
termination
  by (relation "measure length") (auto simp: le_imp_less_Suc length_dropWhile_le)

section \<open>Patterns and matching, as the specification describes them\<close>

text \<open>The kind of a segment is decided by its first byte.\<close>

definition isParamSeg :: "string \<Rightarrow> bool" where
  "isParamSeg s \<longleftrightarrow> s \<noteq> [] \<and> hd s = CHR '':''"

definition isCatchAllSeg :: "string \<Rightarrow> bool" where
  "isCatchAllSeg s \<longleftrightarrow> s \<noteq> [] \<and> hd s = CHR ''*''"

text \<open>
  The names of the dynamic segments of a pattern, in order: the name of a parameter
  segment is what follows the colon, and a catch-all segment contributes \<open>*\<close>.
\<close>

fun segment_names :: "string list \<Rightarrow> string list" where
  "segment_names [] = []"
| "segment_names (s # ss) =
     (if isParamSeg s then tl s # segment_names ss
      else if isCatchAllSeg s then ''*'' # segment_names ss
      else segment_names ss)"

text \<open>
  What the resolver does along a chain of tokens: a literal token is walked like an
  edge, a parameter token takes the bytes up to the next \<open>/\<close>, a catch-all token (the
  last one) takes the rest; every \<open>/\<close> in front of a token is skipped.
\<close>

fun match_tokens :: "string list \<Rightarrow> string \<Rightarrow> string list option" where
  "match_tokens [] q = (if filter (\<lambda>c. c \<noteq> CHR ''/'') q = [] then Some [] else None)"
| "match_tokens (tok # toks) q =
     (if isStaticSeg tok then
        (case edge_walk tok q of None \<Rightarrow> None | Some rest \<Rightarrow> match_tokens toks rest)
      else
        (case dropWhile (\<lambda>c. c = CHR ''/'') q of
           [] \<Rightarrow> None
         | c # q' \<Rightarrow>
             if isParamSeg tok then
               map_option ((#) (takeWhile (\<lambda>c. c \<noteq> CHR ''/'') (c # q')))
                 (match_tokens toks
                    (drop (Suc (length (takeWhile (\<lambda>c. c \<noteq> CHR ''/'') (c # q')))) (c # q')))
             else if toks = [] then Some [c # q'] else None))"

text \<open>
  The segments of a pattern: strip the leading and the trailing \<open>/\<close>, split on \<open>/\<close>,
  drop the empty pieces.
\<close>

definition pattern_segments :: "string \<Rightarrow> string list" where
  "pattern_segments p =
     filter (\<lambda>seg. seg \<noteq> [])
       (strings_Split (strings_TrimSuffix (strings_TrimPrefix p ''/'') ''/'') CHR ''/'')"

text \<open>
  A request path (without its leading \<open>/\<close>) matches a pattern segment by segment: a
  literal segment matches the same bytes, a parameter segment matches one non-empty run
  of bytes without \<open>/\<close> and binds it, a catch-all segment, the last one, matches the
  non-empty rest of the path with its interior \<open>/\<close> and binds it. The result is the
  list of the bound values, in the order of the dynamic segments.
\<close>

fun match_segments :: "string list \<Rightarrow> string \<Rightarrow> string list option" where
  "match_segments [] q = (if q = [] then Some [] else None)"
| "match_segments (s # ss) q =
     (if isCatchAllSeg s then
        (if ss = [] \<and> q \<noteq> [] \<and> hd q \<noteq> CHR ''/'' then Some [q] else None)
      else
        (let v = takeWhile (\<lambda>c. c \<noteq> CHR ''/'') q;
             rest = drop (Suc (length v)) q
         in
           if isParamSeg s then
             (if v \<noteq> [] then map_option ((#) v) (match_segments ss rest) else None)
           else
             (if v = s then match_segments ss rest else None)))"

section \<open>The endpoints of a tree and the applications a program can build\<close>

text \<open>All endpoints stored in a node or below it.\<close>

fun endpoints :: "'h node \<Rightarrow> 'h endpoint set"
  and endpoints_opt :: "'h node option \<Rightarrow> 'h endpoint set"
  and endpoints_list :: "(char \<times> 'h node) list \<Rightarrow> 'h endpoint set"
where
  "endpoints (Node ty pre ch s0 s1 s2 ep) =
     set_option ep \<union> endpoints_list ch \<union> endpoints_opt s0 \<union> endpoints_opt s1
       \<union> endpoints_opt s2"
| "endpoints_opt None = {}"
| "endpoints_opt (Some c) = endpoints c"
| "endpoints_list [] = {}"
| "endpoints_list (kc # rest) = endpoints (snd kc) \<union> endpoints_list rest"

text \<open>
  The applications that a program can build: a new one, one whose root router was
  created, and one in which a route of any method, path and middlewares was bound on
  some router with \<open>Method(path, mws...).Handle(h)\<close>.
\<close>

inductive reachable :: "App \<Rightarrow> bool" where
  reachable_New: "reachable (New cs)"
| reachable_Router: "reachable a \<Longrightarrow> reachable (snd (App_Router a pth ms))"
| reachable_Handle:
    "reachable a \<Longrightarrow> Handle a (mkRoute a m r p ms) h = Inr a' \<Longrightarrow> reachable a'"

text \<open>
  An endpoint is sound when its pattern is valid and its parameter names are the names
  of the dynamic segments of its pattern; an application has sound endpoints when every
  endpoint of every tree is.
\<close>

definition sound_endpoint :: "'h endpoint \<Rightarrow> bool" where
  "sound_endpoint e \<longleftrightarrow>
     isValidPath (fullPath e) = Inr True
     \<and> pKeys e = segment_names (pattern_segments (fullPath e))"

definition valid_endpoints :: "App \<Rightarrow> bool" where
  "valid_endpoints a \<longleftrightarrow>
     (\<forall>m t. trees a m = Some t \<longrightarrow> (\<forall>e\<in>endpoints t. sound_endpoint e))"

section \<open>Facts about the helpers\<close>

declare longestPrefix_loop.simps [simp del] insert_static.simps [simp del]

subsection \<open>Strings\<close>

lemma Split_no_sep: "s \<in> set (strings_Split xs c) \<Longrightarrow> c \<notin> set s"
  by (induction xs arbitrary: s) (auto split: if_splits list.splits)

lemma Split_not_Nil [simp]: "strings_Split xs c \<noteq> []"
  by (induction xs) (auto split: list.splits)

lemma Split_no_sep_id: "c \<notin> set s \<Longrightarrow> strings_Split s c = [s]"
  by (induction s) auto

lemma Split_append_sep:
  "c \<notin> set s \<Longrightarrow> strings_Split (s @ c # rest) c = s # strings_Split rest c"
  by (induction s) (auto split: list.splits)

lemma Split_Join:
  "segs \<noteq> [] \<Longrightarrow> \<forall>s\<in>set segs. c \<notin> set s \<Longrightarrow>
     strings_Split (strings_Join segs [c]) c = segs"
proof (induction segs)
  case Nil
  then show ?case by simp
next
  case (Cons e es)
  then show ?case
    by (cases es) (simp_all add: Split_no_sep_id Split_append_sep)
qed

lemma TrimPrefix_slash [simp]: "strings_TrimPrefix (CHR ''/'' # s) ''/'' = s"
  by (simp add: strings_TrimPrefix_def)

text \<open>The index loop of \<open>longestPrefix\<close> computes the common prefix, byte by byte.\<close>

lemma longestPrefix_loop_Cons:
  "longestPrefix_loop (Suc i) (Suc m) (x # xs) (y # ys) = x # longestPrefix_loop i m xs ys"
proof (induction i m xs ys rule: longestPrefix_loop.induct)
  case (1 i m s1 s2)
  show ?case
  proof (cases "i < m")
    case True
    then show ?thesis
      using "1.IH" by (subst (1 2) longestPrefix_loop.simps) simp
  next
    case False
    then show ?thesis by (subst (1 2) longestPrefix_loop.simps) simp
  qed
qed

lemma longestPrefix_Nil [simp]: "longestPrefix [] s2 = []" "longestPrefix s1 [] = []"
  by (simp_all add: longestPrefix_def longestPrefix_loop.simps)

lemma longestPrefix_Cons [simp]:
  "longestPrefix (x # xs) (y # ys) = (if x = y then x # longestPrefix xs ys else [])"
proof (cases "x = y")
  case True
  have "longestPrefix (x # xs) (y # ys) =
        longestPrefix_loop (Suc 0) (Suc (min (length xs) (length ys))) (x # xs) (y # ys)"
    using True by (simp add: longestPrefix_def longestPrefix_loop.simps [of 0])
  then show ?thesis using True by (simp add: longestPrefix_loop_Cons longestPrefix_def)
next
  case False
  then show ?thesis by (simp add: longestPrefix_def longestPrefix_loop.simps [of 0])
qed

subsection \<open>The splitter\<close>

lemma getSegmentType_static: "isStaticSeg s \<Longrightarrow> getSegmentType s = Inr static"
  by (simp add: isStaticSeg_def)

lemma getSegmentType_dynamic:
  "s \<noteq> [] \<Longrightarrow> \<not> isStaticSeg s \<Longrightarrow>
     getSegmentType s = Inr param \<or> getSegmentType s = Inr catchAll"
  by (cases s) (auto simp: isStaticSeg_def split: if_splits)

lemma spec_tokens_unfold:
  "spec_tokens segs =
     (if takeWhile isStaticSeg segs = [] then [] else [concat (takeWhile isStaticSeg segs)])
     @ spec_tokens (dropWhile isStaticSeg segs)"
  by (cases segs) simp_all

lemma splitPath_loop_spec:
  assumes "\<forall>s\<in>set segs. s \<noteq> []"
  shows "splitPath_loop segs acc cur =
           Inr (acc @ (if cur = [] \<and> takeWhile isStaticSeg segs = [] then []
                       else [cur @ concat (takeWhile isStaticSeg segs)])
                    @ spec_tokens (dropWhile isStaticSeg segs))"
  using assms
proof (induction segs arbitrary: acc cur)
  case Nil
  then show ?case by simp
next
  case (Cons s segs)
  have IH: "splitPath_loop segs acc' cur' =
           Inr (acc' @ (if cur' = [] \<and> takeWhile isStaticSeg segs = [] then []
                       else [cur' @ concat (takeWhile isStaticSeg segs)])
                    @ spec_tokens (dropWhile isStaticSeg segs))" for acc' cur'
    using Cons by simp
  have ne: "s \<noteq> []" using Cons.prems by simp
  show ?case
  proof (cases "isStaticSeg s")
    case True
    then show ?thesis using ne by (simp add: getSegmentType_static IH)
  next
    case False
    then have "getSegmentType s = Inr param \<or> getSegmentType s = Inr catchAll"
      using ne by (rule getSegmentType_dynamic [rotated])
    moreover have "spec_tokens segs =
        (if takeWhile isStaticSeg segs = [] then [] else [concat (takeWhile isStaticSeg segs)])
        @ spec_tokens (dropWhile isStaticSeg segs)"
      by (rule spec_tokens_unfold)
    ultimately show ?thesis using False
      by (auto simp: IH)
  qed
qed

subsection \<open>Middleware chains\<close>

lemma chainMws_loop_foldr: "chainMws_loop xs h = foldr wrap (rev xs) h"
  by (induction xs arbitrary: h) simp_all

lemma chainMws_foldr: "chainMws ms h = foldr wrap ms h"
  by (simp add: chainMws_def chainMws_loop_foldr)

lemma wrap_pure_mw: "wrap (pure_mw m) next = m next"
  by (simp add: wrap_def pure_mw_def)

lemma events_log_event: "events (log_event e w) = events w @ [e]"
  by (simp add: log_event_def)

lemma events_order_chain:
  "events (chainMws (map order_mw names) order_handler r w) =
     events w @ map (\<lambda>n. ''before_'' @ n) names @ [''handler'']
       @ rev (map (\<lambda>n. ''after_'' @ n) names)"
proof (induction names arbitrary: w)
  case Nil
  then show ?case by (simp add: chainMws_foldr order_handler_def events_log_event)
next
  case (Cons n names)
  then show ?case
    by (simp add: chainMws_foldr order_mw_def wrap_pure_mw order_wrapper_def events_log_event)
qed

lemma events_applied_chain:
  "events (chainMws (map applied_mw names) order_handler r w) =
     events w @ map (\<lambda>n. ''apply_'' @ n) names @ [''handler'']"
proof (induction names arbitrary: w)
  case Nil
  then show ?case by (simp add: chainMws_foldr order_handler_def events_log_event)
next
  case (Cons n names)
  then show ?case
    by (simp add: chainMws_foldr applied_mw_def wrap_def events_log_event)
qed

subsection \<open>Registration\<close>

lemma setChildren_children [simp]: "setChildren n (children n) = n"
  by (cases n) simp

lemma children_setChildren [simp]: "children (setChildren n ch) = ch"
  by (cases n) simp


lemma tree_insert_panic:
  "isValidPath (cleanPath p) = Inl e \<Longrightarrow> tree_insert t p f = Inl e"
  by (simp add: tree_insert_def)


lemma Handle_Get_panic:
  assumes "isValidPath (cleanPath (cleanPath (path r @ p))) = Inl e"
  shows "Handle a (Get a r p ms) h = Inl e"
proof (cases "trees a mGET")
  case None
  then show ?thesis using assms
    by (simp add: Handle_def Get_def mkRoute_def getTree_def)
next
  case (Some entry)
  then show ?thesis using assms
    by (simp add: Handle_def Get_def mkRoute_def getTree_def tree_insert_panic)
qed

lemma trees_New: "trees (New cs) m = Some newTree"
  by (cases m) (simp_all add: New_def)

lemma trees_root_app: "trees root_app m = Some newTree"
  by (simp add: root_app_def App_Router_def Let_def trees_New)

lemma path_root_router: "path root_router = ''/''"
  by (simp add: root_router_def App_Router_def Let_def)

lemma Routes_root_app: "Routes root_app = []"
  by (simp add: Routes_def trees_root_app captureRoutes_def newTree_def)

lemma find_loop_newTree:
  "find_loop newTree None 0 [] q =
     Inr (if filter (\<lambda>c. c \<noteq> CHR ''/'') q = [] then Some newTree else None, [])"
  by (induction q) (simp_all add: newTree_def)

lemma tree_find_newTree: "tree_find newTree q = Inr (None, Map.empty)"
  by (simp add: tree_find_def find_loop_newTree) (simp add: newTree_def)

lemma internalHandler_root_app:
  "internalHandler root_app (get_request q) w = Inr (notFound (get_request q) w)"
  by (simp add: internalHandler_def Let_def trees_root_app get_request_def Header_Get_def
        methodLookup_def tree_find_newTree)
     (simp add: root_app_def App_Router_def Let_def New_def)


lemma abc_path_facts:
  "cleanPath ''/a/b'' = ''/a/b''" "isValidPath ''/a/b'' = Inr True"
  "splitPath ''/a/b'' = Inr [''ab'']"
  "cleanPath ''/a/:x'' = ''/a/:x''" "isValidPath ''/a/:x'' = Inr True"
  "splitPath ''/a/:x'' = Inr [''a'', '':x'']"
  "cleanPath ''/a/*'' = ''/a/*''" "isValidPath ''/a/*'' = Inr True"
  "splitPath ''/a/*'' = Inr [''a'', ''*'']"
  by code_simp+

lemmas eval_insert =
  tree_insert_def insert_static.simps newTree_def newNode_def newEndpoint_def Let_def

lemma abc_orders:
  "insert_all newTree [(''/a/b'', h1), (''/a/:x'', h2), (''/a/*'', h3)] = Inr (abc_tree h1 h2 h3)"
  "insert_all newTree [(''/a/b'', h1), (''/a/*'', h3), (''/a/:x'', h2)] = Inr (abc_tree h1 h2 h3)"
  "insert_all newTree [(''/a/:x'', h2), (''/a/b'', h1), (''/a/*'', h3)] = Inr (abc_tree h1 h2 h3)"
  "insert_all newTree [(''/a/:x'', h2), (''/a/*'', h3), (''/a/b'', h1)] = Inr (abc_tree h1 h2 h3)"
  "insert_all newTree [(''/a/*'', h3), (''/a/b'', h1), (''/a/:x'', h2)] = Inr (abc_tree h1 h2 h3)"
  "insert_all newTree [(''/a/*'', h3), (''/a/:x'', h2), (''/a/b'', h1)] = Inr (abc_tree h1 h2 h3)"
  by (simp_all add: eval_insert abc_path_facts abc_tree_def)

declare insert_all.simps [simp del]

lemma abc_find:
  "tree_find (abc_tree h1 h2 h3) ''/a/b'' = Inr (Some (Endpoint h1 ''/a/b'' []), Map.empty)"
  "tree_find (abc_tree h1 h2 h3) ''/a/c'' =
     Inr (Some (Endpoint h2 ''/a/:x'' [''x'']), [''x'' \<mapsto> ''c''])"
  "tree_find (abc_tree h1 h2 h3) ''/a/c/d'' = Inr (None, Map.empty)"
  by (simp_all add: tree_find_def abc_tree_def Let_def)

subsection \<open>Resolution along one edge\<close>

lemma longestPrefix_no_slash:
  "CHR ''/'' \<notin> set ts \<Longrightarrow> longestPrefix (CHR ''/'' # q) ts = []"
  by (cases ts) auto

lemma find_loop_edge_step:
  assumes ch: "map_of (children cur) l = Some child"
    and st: "start < length (prefix child)"
    and c: "c = prefix child ! start"
    and ns: "CHR ''/'' \<notin> set (prefix child)"
    and pl: "pl = Some l \<or> (pl = None \<and> c = l)"
  shows "find_loop cur pl start params (c # q) =
           (if Suc start = length (prefix child) then find_loop child None 0 params q
            else find_loop cur (Some l) (Suc start) params q)"
proof -
  let ?tok = "prefix child"
  have cns: "c \<noteq> CHR ''/''" using c st ns by (metis nth_mem)
  have lab: "(case pl of None \<Rightarrow> c | Some l' \<Rightarrow> l') = l" using pl by auto
  have dr: "drop start ?tok = c # drop (Suc start) ?tok"
    using st c by (simp add: Cons_nth_drop_Suc)
  define lcp' where "lcp' = longestPrefix q (drop (Suc start) ?tok)"
  have L: "find_loop cur pl start params (c # q) =
        (if Suc (length lcp') + start = length ?tok
         then find_loop child None 0 params (drop (length lcp') q)
         else find_loop cur (Some l) (start + Suc (length lcp')) params (drop (length lcp') q))"
    using cns lab ch st dr by (simp add: Let_def lcp'_def)
  show ?thesis
  proof (cases "lcp' = []")
    case True
    then show ?thesis using L by simp
  next
    case False
    then obtain d q' where q: "q = d # q'" by (cases q) (auto simp: lcp'_def)
    have ne: "drop (Suc start) ?tok \<noteq> []" using False by (auto simp: lcp'_def)
    then have lt: "Suc start < length ?tok" by simp
    have dns: "d \<noteq> CHR ''/''"
      using False ns q longestPrefix_no_slash [of "drop (Suc start) ?tok" q']
      by (metis in_set_dropD lcp'_def)
    have R: "find_loop cur (Some l) (Suc start) params q =
        (if length lcp' + Suc start = length ?tok
         then find_loop child None 0 params (drop (length lcp') q)
         else find_loop cur (Some l) (Suc start + length lcp') params (drop (length lcp') q))"
      using dns ch lt False unfolding q by (simp add: Let_def lcp'_def q)
    show ?thesis using L R lt by simp
  qed
qed

lemma find_loop_edge_mismatch:
  assumes ch: "map_of (children cur) l = Some child"
    and st: "start < length (prefix child)"
    and c: "c \<noteq> prefix child ! start" "c \<noteq> CHR ''/''"
  shows "find_loop cur (Some l) start params (c # q) = Inr (Some cur, params)"
proof -
  have "drop start (prefix child) = prefix child ! start # drop (Suc start) (prefix child)"
    using st by (simp add: Cons_nth_drop_Suc)
  then show ?thesis using assms by (simp add: Let_def)
qed

lemma find_loop_edge_walk:
  assumes ch: "map_of (children cur) l = Some child"
    and ns: "CHR ''/'' \<notin> set (prefix child)"
    and st: "start < length (prefix child)"
  shows "find_loop cur (Some l) start params q =
           (case edge_walk (drop start (prefix child)) q of
              Some rest \<Rightarrow> find_loop child None 0 params rest
            | None \<Rightarrow> Inr (Some cur, params))"
  using st
proof (induction q arbitrary: start)
  case Nil
  then show ?case by (cases "drop start (prefix child)") simp_all
next
  case (Cons c q)
  have dr: "drop start (prefix child) = prefix child ! start # drop (Suc start) (prefix child)"
    using Cons.prems by (simp add: Cons_nth_drop_Suc)
  show ?case
  proof (cases "c = CHR ''/''")
    case True
    then show ?thesis using Cons dr by simp
  next
    case False
    show ?thesis
    proof (cases "c = prefix child ! start")
      case True
      show ?thesis
      proof (cases "Suc start = length (prefix child)")
        case e: True
        then show ?thesis
          using find_loop_edge_step [OF ch Cons.prems True ns, of "Some l" params q] False dr True
          by simp
      next
        case ne: False
        then have "Suc start < length (prefix child)" using Cons.prems by simp
        then show ?thesis
          using find_loop_edge_step [OF ch Cons.prems True ns, of "Some l" params q] False dr True
            Cons.IH [of "Suc start"] ne
          by simp
      qed
    next
      case ne: False
      then show ?thesis
        using find_loop_edge_mismatch [OF ch Cons.prems ne False] dr False by simp
    qed
  qed
qed

lemma find_loop_leaf:
  assumes "children n = []" "special n param = None" "special n catchAll = None"
  shows "find_loop n pl st params q =
           Inr (if filter (\<lambda>c. c \<noteq> CHR ''/'') q = [] then Some n else None, params)"
  using assms by (induction q) simp_all

lemma find_loop_single_edge:
  assumes ch: "children cur = [(l, child)]"
    and sp: "special cur param = None" "special cur catchAll = None"
    and tok: "prefix child \<noteq> []" "hd (prefix child) = l"
    and ns: "CHR ''/'' \<notin> set (prefix child)"
  shows "find_loop cur None 0 params q =
           (case edge_walk (prefix child) q of
              Some rest \<Rightarrow> find_loop child None 0 params rest
            | None \<Rightarrow>
                Inr (case dropWhile (\<lambda>c. c = CHR ''/'') q of
                       [] \<Rightarrow> Some cur
                     | c # _ \<Rightarrow> if c = l then Some cur else None, params))"
proof (induction q)
  case Nil
  then show ?case using tok by (cases "prefix child") simp_all
next
  case (Cons c q)
  obtain t ts where t: "prefix child = t # ts" using tok by (cases "prefix child") auto
  then have tl: "t = l" using tok by simp
  have m: "map_of (children cur) l = Some child" using ch by simp
  show ?case
  proof (cases "c = CHR ''/''")
    case True
    then show ?thesis using Cons t by (simp split: option.splits)
  next
    case False
    show ?thesis
    proof (cases "c = l")
      case True
      have st: "0 < length (prefix child)" using t by simp
      have c0: "c = prefix child ! 0" using t tl True by simp
      have step: "find_loop cur None 0 params (c # q) =
           (if Suc 0 = length (prefix child) then find_loop child None 0 params q
            else find_loop cur (Some l) (Suc 0) params q)"
        using find_loop_edge_step [OF m st c0 ns, of None params q] True by simp
      show ?thesis
      proof (cases "ts = []")
        case e: True
        then show ?thesis using step t tl True False by simp
      next
        case ne: False
        then have "Suc 0 < length (prefix child)" using t by (cases ts) simp_all
        then show ?thesis
          using step find_loop_edge_walk [OF m ns, of "Suc 0" params q] t tl True False ne
          by (simp split: option.splits)
      qed
    next
      case ne: False
      then show ?thesis using False ch sp t tl by (simp add: Let_def)
    qed
  qed
qed

lemma edge_walk_filter:
  "CHR ''/'' \<notin> set ts \<Longrightarrow>
     (\<exists>rest. edge_walk ts q = Some rest \<and> filter (\<lambda>c. c \<noteq> CHR ''/'') rest = [])
       \<longleftrightarrow> filter (\<lambda>c. c \<noteq> CHR ''/'') q = ts"
proof (induction ts q rule: edge_walk.induct)
  case (1 q)
  then show ?case by simp
next
  case (2 t ts)
  then show ?case by simp
next
  case (3 t ts c q)
  then show ?case by auto
qed

lemma tree_find_single_edge:
  assumes ch: "children cur = [(l, child)]"
    and sp: "special cur param = None" "special cur catchAll = None"
    and ep: "endpoint cur = None"
    and tok: "prefix child \<noteq> []" "hd (prefix child) = l"
    and ns: "CHR ''/'' \<notin> set (prefix child)"
    and leaf: "children child = []" "special child param = None" "special child catchAll = None"
      "endpoint child = Some (Endpoint f pth [])"
  shows "tree_find cur q =
           (if filter (\<lambda>c. c \<noteq> CHR ''/'') q = prefix child
            then Inr (Some (Endpoint f pth []), Map.empty) else Inr (None, Map.empty))"
proof (cases "edge_walk (prefix child) q")
  case None
  then have "filter (\<lambda>c. c \<noteq> CHR ''/'') q \<noteq> prefix child"
    using edge_walk_filter [OF ns, of q] by auto
  then show ?thesis
    using None find_loop_single_edge [OF ch sp tok ns, of "[]" q] ep
    by (auto simp: tree_find_def split: list.splits)
next
  case (Some rest)
  have "find_loop cur None 0 [] q =
          Inr (if filter (\<lambda>c. c \<noteq> CHR ''/'') rest = [] then Some child else None, [])"
    using Some find_loop_single_edge [OF ch sp tok ns, of "[]" q]
      find_loop_leaf [OF leaf(1-3), of None 0 "[]" rest] by simp
  moreover have "filter (\<lambda>c. c \<noteq> CHR ''/'') rest = [] \<longleftrightarrow> filter (\<lambda>c. c \<noteq> CHR ''/'') q = prefix child"
    using Some edge_walk_filter [OF ns, of q] by auto
  ultimately show ?thesis using leaf(4) by (simp add: tree_find_def)
qed

lemma settings_scenario_eval:
  "settings_scenario h = Inr (root_app\<lparr>trees := (trees root_app)(mGET \<mapsto> settings_tree h)\<rparr>)"
proof -
  have "cleanPath (''/'' @ ''/api'') = ''/api''" "cleanPath (''/api'' @ ''/v1'') = ''/api/v1''"
    "cleanPath (''/api/v1'' @ ''/admin'') = ''/api/v1/admin''"
    "cleanPath (''/api/v1/admin'' @ ''/settings'') = ''/api/v1/admin/settings''"
    "cleanPath ''/api/v1/admin/settings'' = ''/api/v1/admin/settings''"
    "isValidPath ''/api/v1/admin/settings'' = Inr True"
    "splitPath ''/api/v1/admin/settings'' = Inr [''apiv1adminsettings'']"
    by code_simp+
  then show ?thesis
    by (simp add: settings_scenario_def Handle_def Get_def mkRoute_def getTree_def Group_def
          trees_root_app path_root_router eval_insert chainMws_foldr settings_tree_def)
qed

lemma tree_find_settings_tree:
  "tree_find (settings_tree f) q =
     (if filter (\<lambda>c. c \<noteq> CHR ''/'') q = ''apiv1adminsettings''
      then Inr (Some (Endpoint f ''/api/v1/admin/settings'' []), Map.empty)
      else Inr (None, Map.empty))"
  using tree_find_single_edge [of "settings_tree f" "CHR ''a''"
      "Node static ''apiv1adminsettings'' [] None None None
                      (Some (Endpoint f ''/api/v1/admin/settings'' []))" f "''/api/v1/admin/settings''" q]
  by (simp add: settings_tree_def)


subsection \<open>A route alone in its tree\<close>

lemma getSegmentType_param: "isParamSeg s \<Longrightarrow> getSegmentType s = Inr param"
  by (cases s) (auto simp: isParamSeg_def)

lemma getSegmentType_catchAll: "isCatchAllSeg s \<Longrightarrow> getSegmentType s = Inr catchAll"
  by (cases s) (auto simp: isCatchAllSeg_def)

lemma seg_kinds:
  "s \<noteq> [] \<Longrightarrow> \<not> isStaticSeg s \<Longrightarrow> \<not> isParamSeg s \<Longrightarrow> isCatchAllSeg s"
  by (cases s) (auto simp: isStaticSeg_def isParamSeg_def isCatchAllSeg_def split: if_splits)

lemma static_not_dynamic: "isStaticSeg s \<Longrightarrow> \<not> isParamSeg s \<and> \<not> isCatchAllSeg s \<and> s \<noteq> []"
  by (cases s) (auto simp: isStaticSeg_def isParamSeg_def isCatchAllSeg_def split: if_splits)

lemma param_not_catchAll: "isParamSeg s \<Longrightarrow> \<not> isCatchAllSeg s"
  by (auto simp: isParamSeg_def isCatchAllSeg_def)

text \<open>Node operations on the fields.\<close>

lemma addChild_fields [simp]:
  "children (addChild n l c) = AList.update l c (children n)"
  "prefix (addChild n l c) = prefix n"
  "endpoint (addChild n l c) = endpoint n"
  "special0 (addChild n l c) = special0 n"
  "special1 (addChild n l c) = special1 n"
  "special2 (addChild n l c) = special2 n"
  by (cases n; simp)+

lemma addSpecial_fields [simp]:
  "children (addSpecial n ty c) = children n"
  "prefix (addSpecial n ty c) = prefix n"
  "endpoint (addSpecial n ty c) = endpoint n"
  "special1 (addSpecial n param c) = Some c"
  "special2 (addSpecial n param c) = special2 n"
  "special1 (addSpecial n catchAll c) = special1 n"
  "special2 (addSpecial n catchAll c) = Some c"
  by (cases n; cases ty; simp)+

lemma setEndpoint_fields [simp]:
  "children (setEndpoint n e) = children n"
  "prefix (setEndpoint n e) = prefix n"
  "endpoint (setEndpoint n e) = e"
  "special1 (setEndpoint n e) = special1 n"
  "special2 (setEndpoint n e) = special2 n"
  by (cases n; simp)+

lemma newNode_fields [simp]:
  "children (newNode ty pre) = []"
  "prefix (newNode ty pre) = pre"
  "endpoint (newNode ty pre) = None"
  "special1 (newNode ty pre) = None"
  "special2 (newNode ty pre) = None"
  by (simp_all add: newNode_def)

lemma newTree_fields [simp]:
  "children newTree = []"
  "prefix newTree = []"
  "endpoint newTree = None"
  "special1 newTree = None"
  "special2 newTree = None"
  by (simp_all add: newTree_def)

lemma IndexByte_takeWhile:
  "strings_IndexByte p c =
     (if c \<in> set p then Some (length (takeWhile (\<lambda>x. x \<noteq> c) p)) else None)"
  by (induction p) auto

lemma find_loop_skip_slashes:
  "find_loop cur pl st params q = find_loop cur pl st params (dropWhile (\<lambda>c. c = CHR ''/'') q)"
  by (induction q) simp_all

lemma find_loop_param_child:
  assumes "children cur = []" "special cur param = Some pn" "c \<noteq> CHR ''/''"
  shows "find_loop cur None 0 params (c # q') =
           find_loop pn None 0 (params @ [takeWhile (\<lambda>x. x \<noteq> CHR ''/'') (c # q')])
             (drop (Suc (length (takeWhile (\<lambda>x. x \<noteq> CHR ''/'') (c # q')))) (c # q'))"
proof (cases "CHR ''/'' \<in> set q'")
  case True
  then show ?thesis using assms
    by (simp add: Let_def IndexByte_takeWhile takeWhile_eq_take [symmetric])
next
  case False
  then have tw: "takeWhile (\<lambda>x. x \<noteq> CHR ''/'') q' = q'"
    by (intro takeWhile_eq_all_conv [THEN iffD2]) auto
  show ?thesis using assms False
    by (simp add: Let_def IndexByte_takeWhile tw)
qed

lemma find_loop_catchAll_child:
  assumes "children cur = []" "special cur param = None" "special cur catchAll = Some ca"
    "c \<noteq> CHR ''/''"
  shows "find_loop cur None 0 params (c # q') = Inr (Some ca, params @ [c # q'])"
  using assms by (simp add: Let_def)

lemma dropWhile_slash_head: "dropWhile (\<lambda>c. c = CHR ''/'') q = c # q' \<Longrightarrow> c \<noteq> CHR ''/''"
  using hd_dropWhile [of "\<lambda>c. c = CHR ''/''" q] by auto

lemma insert_then_find:
  assumes "children cur = []" "special cur param = None" "special cur catchAll = None"
    and "\<forall>tok\<in>set toks. tok \<noteq> [] \<and> (isStaticSeg tok \<longrightarrow> CHR ''/'' \<notin> set tok)"
    and "match_tokens toks q = Some vals"
  shows "\<exists>cur' term. insert_segs pc f cur toks keys = Inr cur'
          \<and> prefix cur' = prefix cur
          \<and> find_loop cur' None 0 params q = Inr (Some term, params @ vals)
          \<and> endpoint term = Some (Endpoint f pc (keys @ segment_names toks))"
  using assms
proof (induction toks arbitrary: cur keys params q vals)
  case Nil
  let ?cur' = "setEndpoint cur (Some (newEndpoint pc f keys))"
  have "filter (\<lambda>c. c \<noteq> CHR ''/'') q = []" "vals = []"
    using Nil.prems(5) by (auto split: if_splits)
  then have "find_loop ?cur' None 0 params q = Inr (Some ?cur', params @ vals)"
    using find_loop_leaf [of ?cur' None 0 params q] Nil.prems(1-3) by simp
  then show ?case by (auto simp: newEndpoint_def)
next
  case (Cons tok toks)
  have tokne: "tok \<noteq> []" using Cons.prems(4) by simp
  have rest_ok: "\<forall>tok\<in>set toks. tok \<noteq> [] \<and> (isStaticSeg tok \<longrightarrow> CHR ''/'' \<notin> set tok)"
    using Cons.prems(4) by simp
  show ?case
  proof (cases "isStaticSeg tok")
    case True
    then have ns: "CHR ''/'' \<notin> set tok" using Cons.prems(4) by simp
    obtain rest where rest: "edge_walk tok q = Some rest" "match_tokens toks rest = Some vals"
      using Cons.prems(5) True by (auto split: option.splits)
    obtain new' trm where new':
      "insert_segs pc f (newNode static tok) toks keys = Inr new'"
      "prefix new' = tok"
      "find_loop new' None 0 params rest = Inr (Some trm, params @ vals)"
      "endpoint trm = Some (Endpoint f pc (keys @ segment_names toks))"
      using Cons.IH [of "newNode static tok" rest vals keys params] rest_ok rest(2) by auto
    let ?cur' = "addChild cur (hd tok) new'"
    have ins: "insert_segs pc f cur (tok # toks) keys = Inr ?cur'"
      using True tokne Cons.prems(1) new'(1)
      by (simp add: getSegmentType_static insert_static.simps)
    have ch: "children ?cur' = [(hd tok, new')]" using Cons.prems(1) by simp
    have "find_loop ?cur' None 0 params q = find_loop new' None 0 params rest"
      using find_loop_single_edge [of ?cur' "hd tok" new' params q] ch Cons.prems(2,3)
        new'(2) tokne ns rest(1)
      by simp
    then show ?thesis
      using ins new' True static_not_dynamic [OF True] by auto
  next
    case False
    obtain c q' where cq: "dropWhile (\<lambda>c. c = CHR ''/'') q = c # q'"
      using Cons.prems(5) False by (auto split: list.splits)
    have cns: "c \<noteq> CHR ''/''" using cq by (rule dropWhile_slash_head)
    have skip: "find_loop n None 0 ps q = find_loop n None 0 ps (c # q')" for n :: "'a node" and ps
      using find_loop_skip_slashes [of n None 0 ps q] cq by simp
    show ?thesis
    proof (cases "isParamSeg tok")
      case True
      let ?v = "takeWhile (\<lambda>c. c \<noteq> CHR ''/'') (c # q')"
      let ?rest = "drop (Suc (length ?v)) (c # q')"
      obtain vals' where vals': "match_tokens toks ?rest = Some vals'" "vals = ?v # vals'"
        using Cons.prems(5) False True cq by auto
      obtain n' trm where n':
        "insert_segs pc f (newNode param []) toks (keys @ [tl tok]) = Inr n'"
        "find_loop n' None 0 (params @ [?v]) ?rest = Inr (Some trm, (params @ [?v]) @ vals')"
        "endpoint trm = Some (Endpoint f pc ((keys @ [tl tok]) @ segment_names toks))"
        using Cons.IH [of "newNode param []" ?rest vals' "keys @ [tl tok]" "params @ [?v]"]
          rest_ok vals'(1) by auto
      let ?cur' = "addSpecial cur param n'"
      have ins: "insert_segs pc f cur (tok # toks) keys = Inr ?cur'"
        using True Cons.prems(2) n'(1) by (simp add: getSegmentType_param)
      have "find_loop ?cur' None 0 params (c # q') = find_loop n' None 0 (params @ [?v]) ?rest"
        using find_loop_param_child [of ?cur' n' c params q'] Cons.prems(1) cns by simp
      then show ?thesis
        using ins n' True vals'(2) skip [of ?cur' params] by auto
    next
      case notp: False
      have ca: "isCatchAllSeg tok" using tokne False notp by (rule seg_kinds)
      have e: "toks = []" "vals = [c # q']"
        using Cons.prems(5) False notp cq by (auto split: if_splits)
      let ?n' = "setEndpoint (newNode catchAll []) (Some (newEndpoint pc f (keys @ [''*''])))"
      let ?cur' = "addSpecial cur catchAll ?n'"
      have ins: "insert_segs pc f cur (tok # toks) keys = Inr ?cur'"
        using ca Cons.prems(3) e(1) by (simp add: getSegmentType_catchAll)
      have "find_loop ?cur' None 0 params (c # q') = Inr (Some ?n', params @ [c # q'])"
        using find_loop_catchAll_child [of ?cur' ?n' c params q'] Cons.prems(1,2) cns by simp
      then show ?thesis
        using ins e ca notp skip [of ?cur' params] by (auto simp: newEndpoint_def)
    qed
  qed
qed

lemma match_tokens_skip_slash: "match_tokens toks (CHR ''/'' # q) = match_tokens toks q"
proof (cases toks)
  case Nil
  then show ?thesis by simp
next
  case (Cons tok toks')
  show ?thesis
  proof (cases "isStaticSeg tok")
    case True
    then obtain t ts where "tok = t # ts" using static_not_dynamic [OF True] by (cases tok) auto
    then show ?thesis using Cons True by simp
  next
    case False
    then show ?thesis using Cons by simp
  qed
qed

lemma match_tokens_drop1:
  "r = [] \<or> hd r = CHR ''/'' \<Longrightarrow> match_tokens toks (drop 1 r) = match_tokens toks r"
  by (cases r) (auto simp: match_tokens_skip_slash)

lemma edge_walk_append:
  "CHR ''/'' \<notin> set s \<Longrightarrow> edge_walk (s @ ts) (s @ r) = edge_walk ts r"
  by (induction s) auto

lemma edge_walk_drop1:
  "ts \<noteq> [] \<Longrightarrow> r = [] \<or> hd r = CHR ''/'' \<Longrightarrow> edge_walk ts (drop 1 r) = edge_walk ts r"
  by (cases ts; cases r) auto

lemma split_at_slash:
  "q = takeWhile (\<lambda>c. c \<noteq> CHR ''/'') q @ dropWhile (\<lambda>c. c \<noteq> CHR ''/'') q"
  "dropWhile (\<lambda>c. c \<noteq> CHR ''/'') q = [] \<or> hd (dropWhile (\<lambda>c. c \<noteq> CHR ''/'') q) = CHR ''/''"
  "drop (Suc (length (takeWhile (\<lambda>c. c \<noteq> CHR ''/'') q))) q = drop 1 (dropWhile (\<lambda>c. c \<noteq> CHR ''/'') q)"
proof -
  show "q = takeWhile (\<lambda>c. c \<noteq> CHR ''/'') q @ dropWhile (\<lambda>c. c \<noteq> CHR ''/'') q" by simp
  show "dropWhile (\<lambda>c. c \<noteq> CHR ''/'') q = [] \<or> hd (dropWhile (\<lambda>c. c \<noteq> CHR ''/'') q) = CHR ''/''"
    using hd_dropWhile [of "\<lambda>c. c \<noteq> CHR ''/''" q] by auto
  show "drop (Suc (length (takeWhile (\<lambda>c. c \<noteq> CHR ''/'') q))) q = drop 1 (dropWhile (\<lambda>c. c \<noteq> CHR ''/'') q)"
    by (simp add: dropWhile_eq_drop drop_Suc drop_tl)
qed

lemma match_static_run:
  assumes "run \<noteq> []" "\<forall>s\<in>set run. isStaticSeg s \<and> CHR ''/'' \<notin> set s"
    and "match_segments (run @ rest) q = Some vals"
  shows "\<exists>r. edge_walk (concat run) q = Some r \<and> (r = [] \<or> hd r = CHR ''/'')
            \<and> match_segments rest (drop 1 r) = Some vals"
  using assms
proof (induction run arbitrary: q)
  case Nil
  then show ?case by simp
next
  case (Cons s run)
  let ?v = "takeWhile (\<lambda>c. c \<noteq> CHR ''/'') q"
  let ?r = "dropWhile (\<lambda>c. c \<noteq> CHR ''/'') q"
  have st: "isStaticSeg s" "CHR ''/'' \<notin> set s" using Cons.prems(2) by simp_all
  have nd: "\<not> isParamSeg s" "\<not> isCatchAllSeg s" "s \<noteq> []"
    using static_not_dynamic [OF st(1)] by simp_all
  have m: "?v = s" "match_segments (run @ rest) (drop 1 ?r) = Some vals"
    using Cons.prems(3) nd split_at_slash(3) [of q]
    by (auto simp: Let_def split: if_splits)
  have q: "q = s @ ?r" using split_at_slash(1) [of q] m(1) by simp
  have rr: "?r = [] \<or> hd ?r = CHR ''/''" by (rule split_at_slash(2))
  show ?case
  proof (cases "run = []")
    case True
    have "edge_walk (concat (s # run)) q = Some ?r"
      using True edge_walk_append [OF st(2), of "[]" ?r] q by simp
    then show ?thesis using True m(2) rr by auto
  next
    case False
    obtain r where r: "edge_walk (concat run) (drop 1 ?r) = Some r" "r = [] \<or> hd r = CHR ''/''"
      "match_segments rest (drop 1 r) = Some vals"
      using Cons.IH [OF False _ m(2)] Cons.prems(2) by auto
    have cne: "concat run \<noteq> []"
      using False Cons.prems(2) static_not_dynamic by (cases run) auto
    have "edge_walk (concat (s # run)) q = edge_walk (concat run) ?r"
      using edge_walk_append [OF st(2), of "concat run" ?r] q by simp
    also have "\<dots> = Some r" using edge_walk_drop1 [OF cne rr] r(1) by simp
    finally show ?thesis using r by auto
  qed
qed

lemma isStaticSeg_concat:
  "isStaticSeg s \<Longrightarrow> isStaticSeg (concat (s # run))"
  by (cases s) (auto simp: isStaticSeg_def)

lemma match_segments_tokens:
  assumes "\<forall>s\<in>set segs. s \<noteq> [] \<and> CHR ''/'' \<notin> set s"
    and "match_segments segs q = Some vals"
  shows "match_tokens (spec_tokens segs) q = Some vals"
  using assms
proof (induction segs arbitrary: q vals rule: spec_tokens.induct)
  case 1
  then show ?case by (auto split: if_splits)
next
  case (2 s ss)
  show ?case
  proof (cases "isStaticSeg s")
    case True
    let ?run = "s # takeWhile isStaticSeg ss"
    let ?rest = "dropWhile isStaticSeg ss"
    have run: "\<forall>x\<in>set ?run. isStaticSeg x \<and> CHR ''/'' \<notin> set x"
      using True "2.prems"(1) by (auto dest: set_takeWhileD)
    have "match_segments (?run @ ?rest) q = Some vals" using "2.prems"(2) by simp
    then obtain r where r: "edge_walk (concat ?run) q = Some r" "r = [] \<or> hd r = CHR ''/''"
      "match_segments ?rest (drop 1 r) = Some vals"
      using match_static_run [of ?run ?rest q vals] run by blast
    have "\<forall>x\<in>set ?rest. x \<noteq> [] \<and> CHR ''/'' \<notin> set x"
      using "2.prems"(1) by (auto dest: set_dropWhileD)
    then have "match_tokens (spec_tokens ?rest) (drop 1 r) = Some vals"
      using "2.IH"(1) [OF True _ r(3)] by simp
    then have "match_tokens (spec_tokens ?rest) r = Some vals"
      using match_tokens_drop1 [OF r(2)] by simp
    then show ?thesis
      using True r(1) isStaticSeg_concat [OF True, of "takeWhile isStaticSeg ss"] by simp
  next
    case False
    have sne: "s \<noteq> []" using "2.prems"(1) by simp
    have rest_ok: "\<forall>x\<in>set ss. x \<noteq> [] \<and> CHR ''/'' \<notin> set x" using "2.prems"(1) by simp
    show ?thesis
    proof (cases "isCatchAllSeg s")
      case True
      then have e: "ss = []" "q \<noteq> []" "hd q \<noteq> CHR ''/''" "vals = [q]"
        using "2.prems"(2) by (auto split: if_splits)
      then obtain c q' where cq: "q = c # q'" "c \<noteq> CHR ''/''" by (cases q) auto
      have "\<not> isParamSeg s" using True param_not_catchAll by blast
      then show ?thesis using False e cq by simp
    next
      case nc: False
      then have ps: "isParamSeg s" using seg_kinds [OF sne False] by blast
      let ?v = "takeWhile (\<lambda>c. c \<noteq> CHR ''/'') q"
      let ?rest = "drop (Suc (length ?v)) q"
      obtain vals' where v: "?v \<noteq> []" "match_segments ss ?rest = Some vals'" "vals = ?v # vals'"
        using "2.prems"(2) nc ps by (auto simp: Let_def split: if_splits)
      then obtain c q' where cq: "q = c # q'" "c \<noteq> CHR ''/''" by (cases q) (auto split: if_splits)
      have "match_tokens (spec_tokens ss) ?rest = Some vals'"
        using "2.IH"(2) [OF False rest_ok v(2)] .
      then show ?thesis using False ps v(3) cq by simp
    qed
  qed
qed

lemma segment_names_static_run:
  "\<forall>s\<in>set run. isStaticSeg s \<Longrightarrow> segment_names (run @ rest) = segment_names rest"
  by (induction run) (auto dest: static_not_dynamic)

lemma segment_names_spec_tokens: "segment_names (spec_tokens segs) = segment_names segs"
proof (induction segs rule: spec_tokens.induct)
  case 1
  then show ?case by simp
next
  case (2 s ss)
  show ?case
  proof (cases "isStaticSeg s")
    case True
    have "segment_names (s # ss) = segment_names ((s # takeWhile isStaticSeg ss) @ dropWhile isStaticSeg ss)"
      by simp
    also have "\<dots> = segment_names (dropWhile isStaticSeg ss)"
      using True by (intro segment_names_static_run) (auto dest: set_takeWhileD)
    finally show ?thesis
      using True "2.IH"(1) static_not_dynamic [OF isStaticSeg_concat [OF True, of "takeWhile isStaticSeg ss"]]
      by simp
  next
    case False
    then show ?thesis using "2.IH"(2) by simp
  qed
qed

lemma match_tokens_length:
  "\<forall>tok\<in>set toks. tok \<noteq> [] \<Longrightarrow> match_tokens toks q = Some vals \<Longrightarrow>
     length vals = length (segment_names toks)"
proof (induction toks arbitrary: q vals)
  case Nil
  then show ?case by (auto split: if_splits)
next
  case (Cons tok toks)
  show ?case
  proof (cases "isStaticSeg tok")
    case True
    then show ?thesis using Cons static_not_dynamic [OF True]
      by (auto split: option.splits)
  next
    case False
    have "isParamSeg tok \<or> isCatchAllSeg tok" using seg_kinds [of tok] False Cons.prems(1) by auto
    then show ?thesis using Cons False param_not_catchAll [of tok]
      by (auto split: list.splits if_splits)
  qed
qed

lemma cleanPath_segments: "cleanPath p = CHR ''/'' # strings_Join (pattern_segments p) ''/''"
  by (simp add: cleanPath_def pattern_segments_def)

lemma pattern_segments_ok: "\<forall>s\<in>set (pattern_segments p). s \<noteq> [] \<and> CHR ''/'' \<notin> set s"
  by (auto simp: pattern_segments_def dest: Split_no_sep)

lemma splitPath_Join_spec:
  assumes "segs \<noteq> []" "\<forall>s\<in>set segs. s \<noteq> [] \<and> CHR ''/'' \<notin> set s"
  shows "splitPath (CHR ''/'' # strings_Join segs ''/'') = Inr (spec_tokens segs)"
proof -
  have "strings_Split (strings_Join segs ''/'') CHR ''/'' = segs"
    using assms by (simp add: Split_Join)
  moreover have "splitPath_loop segs [] [] = Inr (spec_tokens segs)"
    using assms splitPath_loop_spec [of segs "[]" "[]"]
    by (subst spec_tokens_unfold) simp
  ultimately show ?thesis by (simp add: splitPath_def)
qed

lemma valid_segments_nonempty:
  assumes "isValidPath (cleanPath p) = Inr True"
  shows "pattern_segments p \<noteq> []"
proof
  assume "pattern_segments p = []"
  then have "cleanPath p = ''/''" by (simp add: cleanPath_segments)
  moreover have "isValidPath ''/'' = Inl IndexOutOfRange" by code_simp
  ultimately show False using assms by simp
qed

lemma spec_tokens_ok:
  "\<forall>s\<in>set segs. s \<noteq> [] \<and> CHR ''/'' \<notin> set s \<Longrightarrow>
     \<forall>tok\<in>set (spec_tokens segs). tok \<noteq> [] \<and> CHR ''/'' \<notin> set tok"
proof (induction segs rule: spec_tokens.induct)
  case 1
  then show ?case by simp
next
  case (2 s ss)
  show ?case
  proof (cases "isStaticSeg s")
    case True
    have "\<forall>x\<in>set (dropWhile isStaticSeg ss). x \<noteq> [] \<and> CHR ''/'' \<notin> set x"
      using "2.prems" by (auto dest: set_dropWhileD)
    then have "\<forall>tok\<in>set (spec_tokens (dropWhile isStaticSeg ss)). tok \<noteq> [] \<and> CHR ''/'' \<notin> set tok"
      using "2.IH"(1) [OF True] by simp
    then show ?thesis using True "2.prems" by (auto dest: set_takeWhileD)
  next
    case False
    then show ?thesis using "2.IH"(2) "2.prems" by simp
  qed
qed

text \<open>What the validator guarantees about the parameter tokens.\<close>

lemma isValidPath_loop_params:
  assumes "isValidPath_loop i n toks prev keys = Inr True" "\<forall>tok\<in>set toks. tok \<noteq> []"
  shows "distinct (filter isParamSeg toks) \<and> set (filter isParamSeg toks) \<inter> keys = {}
         \<and> (\<forall>tok\<in>set toks. isParamSeg tok \<longrightarrow> paramRegex_MatchString (tl tok))"
  using assms
proof (induction toks arbitrary: i prev keys)
  case Nil
  then show ?case by simp
next
  case (Cons tok toks)
  have ne: "tok \<noteq> []" using Cons.prems(2) by simp
  obtain ty where ty: "getSegmentType tok = Inr ty" using ne by (cases tok) auto
  have nxt: "isValidPath_loop (Suc i) n toks (Some ty) (if ty = param then insert tok keys else keys) = Inr True"
    using Cons.prems(1) ne ty by (simp split: if_splits)
  have IH: "distinct (filter isParamSeg toks)
        \<and> set (filter isParamSeg toks) \<inter> (if ty = param then insert tok keys else keys) = {}
        \<and> (\<forall>tok\<in>set toks. isParamSeg tok \<longrightarrow> paramRegex_MatchString (tl tok))"
    using Cons.IH [OF nxt] Cons.prems(2) by simp
  show ?case
  proof (cases "isParamSeg tok")
    case True
    then have tp: "ty = param" using ty getSegmentType_param by fastforce
    have "tok \<notin> keys" "paramRegex_MatchString (tl tok)"
      using Cons.prems(1) ne ty tp by (auto split: if_splits)
    then show ?thesis using IH True tp by auto
  next
    case False
    then have "ty \<noteq> param" using ty ne
      by (cases tok) (auto simp: isParamSeg_def split: if_splits)
    then show ?thesis using IH False by auto
  qed
qed

lemma segment_names_subset:
  "set (segment_names toks) \<subseteq> tl ` {t \<in> set toks. isParamSeg t} \<union> {''*''}"
  by (induction toks) auto

lemma tl_param_inj: "isParamSeg s \<Longrightarrow> isParamSeg t \<Longrightarrow> tl s = tl t \<Longrightarrow> s = t"
  by (cases s; cases t) (auto simp: isParamSeg_def)

lemma distinct_segment_names:
  assumes "\<forall>tok\<in>set toks. tok \<noteq> []" "distinct (filter isParamSeg toks)"
    and "\<forall>tok\<in>set toks. isParamSeg tok \<longrightarrow> tl tok \<noteq> ''*''"
    and "match_tokens toks q = Some vals"
  shows "distinct (segment_names toks)"
  using assms
proof (induction toks arbitrary: q vals)
  case Nil
  then show ?case by simp
next
  case (Cons tok toks)
  show ?case
  proof (cases "isStaticSeg tok")
    case True
    then show ?thesis using Cons static_not_dynamic [OF True]
      by (auto split: option.splits)
  next
    case False
    show ?thesis
    proof (cases "isParamSeg tok")
      case True
      obtain q' vals' where "match_tokens toks q' = Some vals'"
        using Cons.prems(4) False True by (auto split: list.splits)
      then have d: "distinct (segment_names toks)" using Cons.IH Cons.prems(1-3) True by auto
      have "tl tok \<notin> set (segment_names toks)"
      proof
        assume "tl tok \<in> set (segment_names toks)"
        then have "tl tok \<in> tl ` {t \<in> set toks. isParamSeg t} \<or> tl tok = ''*''"
          using segment_names_subset [of toks] by auto
        then show False
        proof
          assume "tl tok \<in> tl ` {t \<in> set toks. isParamSeg t}"
          then obtain t where "t \<in> set toks" "isParamSeg t" "tl tok = tl t" by auto
          then have "tok \<in> set (filter isParamSeg toks)" using tl_param_inj [OF True] by auto
          then show False using Cons.prems(2) True by simp
        next
          assume "tl tok = ''*''"
          then show False using Cons.prems(3) True by simp
        qed
      qed
      then show ?thesis using d True by simp
    next
      case np: False
      then have "toks = []" using Cons.prems(4) False by (auto split: list.splits if_splits)
      then show ?thesis by simp
    qed
  qed
qed

lemma regex_not_star: "paramRegex_MatchString s \<Longrightarrow> s \<noteq> ''*''"
  by (cases s) (auto simp: isAlphaUnderscore_def)

text \<open>The loop that fills the parameter map.\<close>

lemma pMap_loop_dom:
  "pMap_loop i ks params m = Inr m' \<Longrightarrow> dom m' = dom m \<union> set ks"
  by (induction ks arbitrary: i m) (auto split: if_splits)

lemma pMap_loop_map_of:
  assumes "i + length ks \<le> length params" "distinct ks"
  shows "pMap_loop i ks params m = Inr (m ++ map_of (zip ks (drop i params)))"
  using assms
proof (induction ks arbitrary: i m)
  case Nil
  then show ?case by simp
next
  case (Cons k ks)
  let ?M = "map_of (zip ks (drop (Suc i) params))"
  have i: "i < length params" using Cons.prems(1) by simp
  then have dr: "drop i params = params ! i # drop (Suc i) params"
    by (simp add: Cons_nth_drop_Suc)
  have "k \<notin> dom ?M"
    using Cons.prems(2) by (auto dest: map_of_SomeD set_zip_leftD)
  then have "m(k \<mapsto> params ! i) ++ ?M = (m ++ ?M)(k \<mapsto> params ! i)"
    by (simp add: map_add_upd_left)
  also have "\<dots> = m ++ ?M(k \<mapsto> params ! i)" by (simp only: map_add_upd)
  also have "?M(k \<mapsto> params ! i) = map_of (zip (k # ks) (drop i params))"
    by (simp only: dr zip_Cons_Cons map_of.simps fst_conv snd_conv)
  finally have e: "m(k \<mapsto> params ! i) ++ ?M = m ++ map_of (zip (k # ks) (drop i params))" .
  have "pMap_loop i (k # ks) params m = pMap_loop (Suc i) ks params (m(k \<mapsto> params ! i))"
    using i by simp
  also have "\<dots> = Inr (m(k \<mapsto> params ! i) ++ ?M)"
    by (rule Cons.IH) (use Cons.prems in auto)
  finally show ?case using e by simp
qed

lemma single_route_find:
  assumes valid: "isValidPath (cleanPath p) = Inr True"
    and m: "match_segments (pattern_segments p) q = Some vals"
  shows "\<exists>t. tree_insert newTree p f = Inr t
           \<and> tree_find t (CHR ''/'' # q) =
               Inr (Some (Endpoint f (cleanPath p) (segment_names (pattern_segments p))),
                    map_of (zip (segment_names (pattern_segments p)) vals))
           \<and> distinct (segment_names (pattern_segments p))
           \<and> length vals = length (segment_names (pattern_segments p))"
proof -
  let ?segs = "pattern_segments p"
  let ?toks = "spec_tokens ?segs"
  let ?names = "segment_names ?segs"
  have segs_ok: "\<forall>s\<in>set ?segs. s \<noteq> [] \<and> CHR ''/'' \<notin> set s" by (rule pattern_segments_ok)
  have ne: "?segs \<noteq> []" using valid by (rule valid_segments_nonempty)
  have sp: "splitPath (cleanPath p) = Inr ?toks"
    using splitPath_Join_spec [OF ne segs_ok] by (simp add: cleanPath_segments)
  have toks_ok: "\<forall>tok\<in>set ?toks. tok \<noteq> [] \<and> CHR ''/'' \<notin> set tok"
    using spec_tokens_ok [OF segs_ok] .
  have mt: "match_tokens ?toks q = Some vals" using match_segments_tokens [OF segs_ok m] .
  have names: "segment_names ?toks = ?names" by (rule segment_names_spec_tokens)
  have len: "length vals = length ?names"
    using match_tokens_length [OF _ mt] toks_ok names by simp
  have "isValidPath_loop 0 (length ?toks) ?toks None {} = Inr True"
    using valid sp by (simp add: isValidPath_def)
  then have vp: "distinct (filter isParamSeg ?toks)"
    "\<forall>tok\<in>set ?toks. isParamSeg tok \<longrightarrow> paramRegex_MatchString (tl tok)"
    using isValidPath_loop_params [of 0 "length ?toks" ?toks None "{}"] toks_ok by auto
  have dist: "distinct ?names"
    using distinct_segment_names [OF _ vp(1) _ mt] toks_ok vp(2) regex_not_star names by auto
  obtain t trm where t: "insert_segs (cleanPath p) f newTree ?toks [] = Inr t"
    "find_loop t None 0 [] q = Inr (Some trm, [] @ vals)"
    "endpoint trm = Some (Endpoint f (cleanPath p) ([] @ segment_names ?toks))"
    using insert_then_find [of newTree ?toks q vals "cleanPath p" f "[]" "[]"] toks_ok mt
    by auto
  have ins: "tree_insert newTree p f = Inr t"
    using valid sp t(1) by (simp add: tree_insert_def)
  have fl: "find_loop t None 0 [] (CHR ''/'' # q) = Inr (Some trm, vals)"
    using t(2) by simp
  have pm: "pMap_loop 0 ?names vals Map.empty = Inr (map_of (zip ?names vals))"
    using pMap_loop_map_of [of 0 ?names vals Map.empty] len dist by simp
  have "tree_find t (CHR ''/'' # q) =
               Inr (Some (Endpoint f (cleanPath p) ?names), map_of (zip ?names vals))"
    using fl t(3) names pm by (simp add: tree_find_def)
  then show ?thesis using ins dist len by blast
qed


subsection \<open>Only valid patterns are stored\<close>

lemma endpoints_list_update:
  "endpoints_list (AList.update k v ch) \<subseteq> endpoints v \<union> endpoints_list ch"
  by (induction ch) auto

lemma endpoints_list_map_of:
  "map_of ch k = Some c \<Longrightarrow> endpoints c \<subseteq> endpoints_list ch"
  by (induction ch) (auto split: if_splits)

lemma endpoints_child: "map_of (children n) k = Some c \<Longrightarrow> endpoints c \<subseteq> endpoints n"
  using endpoints_list_map_of [of "children n" k c] by (cases n) auto

lemma endpoints_addChild: "endpoints (addChild n k c) \<subseteq> endpoints n \<union> endpoints c"
  using endpoints_list_update [of k c "children n"] by (cases n) auto

lemma endpoints_addSpecial: "endpoints (addSpecial n ty c) \<subseteq> endpoints n \<union> endpoints c"
  by (cases n; cases ty) auto

lemma endpoints_setEndpoint: "endpoints (setEndpoint n (Some e)) \<subseteq> endpoints n \<union> {e}"
  by (cases n) auto

lemma endpoints_newNode [simp]: "endpoints (newNode ty pre) = {}"
  by (simp add: newNode_def)

lemma endpoints_newTree [simp]: "endpoints newTree = {}"
  by (simp add: newTree_def)

lemma endpoints_split_head [simp]:
  "endpoints (setEndpoint (clearChildren (setPrefix n lcp)) None) = {}"
  by (cases n) simp

lemma endpoints_copyFrom: "endpoints (copyFrom (newNode ty pre) n) \<subseteq> endpoints n"
  by (cases n) (auto simp: newNode_def)

lemma endpoints_special: "special n ty = Some c \<Longrightarrow> endpoints c \<subseteq> endpoints n"
  by (cases n; cases ty) auto

lemma segment_names_kind:
  "getSegmentType seg = Inr static \<Longrightarrow> segment_names (seg # segs) = segment_names segs"
  "getSegmentType seg = Inr param \<Longrightarrow> segment_names (seg # segs) = tl seg # segment_names segs"
  "getSegmentType seg = Inr catchAll \<Longrightarrow> segment_names (seg # segs) = ''*'' # segment_names segs"
  by (cases seg; auto simp: isParamSeg_def isCatchAllSeg_def split: if_splits)+

lemma insert_new_endpoint:
  "insert_segs p f cur segs keys = Inr cur' \<Longrightarrow>
     endpoints cur' \<subseteq> endpoints cur \<union> {Endpoint f p (keys @ segment_names segs)}"
  "insert_static p f cur search segs keys = Inr cur' \<Longrightarrow>
     endpoints cur' \<subseteq> endpoints cur \<union> {Endpoint f p (keys @ segment_names segs)}"
proof (induction p f cur segs keys and p f cur search segs keys arbitrary: cur' and cur'
    rule: insert_segs_insert_static.induct)
  case (1 p f cur keys)
  then show ?case using endpoints_setEndpoint [of cur "newEndpoint p f keys"]
    by (auto simp: newEndpoint_def)
next
  case (2 p f cur seg segs keys)
  obtain ty where ty: "getSegmentType seg = Inr ty"
    using "2.prems" by (cases "getSegmentType seg") auto
  show ?case
  proof (cases ty)
    case static
    then show ?thesis using 2 ty segment_names_kind(1) [of seg segs] by simp
  next
    case param
    let ?n = "case special cur param of None \<Rightarrow> newNode param [] | Some n \<Rightarrow> n"
    obtain n' where n': "insert_segs p f ?n segs (keys @ [tl seg]) = Inr n'"
      "cur' = addSpecial cur param n'"
      using "2.prems" ty param by (auto split: sum.splits)
    have "endpoints n' \<subseteq> endpoints ?n \<union> {Endpoint f p ((keys @ [tl seg]) @ segment_names segs)}"
      using "2.IH"(2) [OF ty param n'(1)] .
    moreover have "endpoints ?n \<subseteq> endpoints cur"
      using endpoints_special [of cur param] by (auto split: option.splits)
    ultimately show ?thesis
      using n'(2) endpoints_addSpecial [of cur param n'] segment_names_kind(2) [of seg segs]
        ty param by auto
  next
    case catchAll
    let ?n = "case special cur catchAll of None \<Rightarrow> newNode catchAll [] | Some n \<Rightarrow> n"
    obtain n' where n': "insert_segs p f ?n segs (keys @ [''*'']) = Inr n'"
      "cur' = addSpecial cur catchAll n'"
      using "2.prems" ty catchAll by (auto split: sum.splits)
    have "endpoints n' \<subseteq> endpoints ?n \<union> {Endpoint f p ((keys @ [''*'']) @ segment_names segs)}"
      using "2.IH"(3) [OF ty catchAll n'(1)] .
    moreover have "endpoints ?n \<subseteq> endpoints cur"
      using endpoints_special [of cur catchAll] by (auto split: option.splits)
    ultimately show ?thesis
      using n'(2) endpoints_addSpecial [of cur catchAll n'] segment_names_kind(3) [of seg segs]
        ty catchAll by auto
  qed
next
  case (3 p f cur search segs keys)
  let ?E = "{Endpoint f p (keys @ segment_names segs)}"
  show ?case
  proof (cases "search = []")
    case True
    then show ?thesis using "3.prems" "3.IH"(1) by (simp add: insert_static.simps)
  next
    case ne: False
    show ?thesis
    proof (cases "map_of (children cur) (hd search)")
      case None
      obtain new' where new': "insert_segs p f (newNode static search) segs keys = Inr new'"
        "cur' = addChild cur (hd search) new'"
        using "3.prems" ne None by (auto simp: insert_static.simps split: sum.splits)
      have "endpoints new' \<subseteq> ?E"
        using "3.IH"(2) [OF ne None new'(1)] by simp
      then show ?thesis using new'(2) endpoints_addChild [of cur "hd search" new'] by blast
    next
      case (Some nxt)
      let ?lcp = "longestPrefix search (prefix nxt)"
      let ?rem = "drop (length ?lcp) (prefix nxt)"
      let ?new = "copyFrom (newNode static ?rem) nxt"
      let ?next1 = "addChild (setEndpoint (clearChildren (setPrefix nxt ?lcp)) None) (hd ?rem) ?new"
      have nx: "endpoints nxt \<subseteq> endpoints cur" using Some by (rule endpoints_child)
      have n1: "endpoints ?next1 \<subseteq> endpoints nxt"
        using endpoints_addChild [of "setEndpoint (clearChildren (setPrefix nxt ?lcp)) None" "hd ?rem" ?new]
          endpoints_copyFrom [of static ?rem nxt]
        by auto
      show ?thesis
      proof (cases "length ?lcp < length (prefix nxt)")
        case split: True
        show ?thesis
        proof (cases "length search > length ?lcp")
          case True
          obtain ns where ns:
            "insert_segs p f (newNode static (drop (length ?lcp) search)) segs keys = Inr ns"
            "cur' = addChild cur (hd search) (addChild ?next1 (hd (drop (length ?lcp) search)) ns)"
            using "3.prems" ne Some split True
            by (auto simp: insert_static.simps Let_def split: sum.splits)
          have "endpoints ns \<subseteq> ?E"
            using "3.IH"(3) [OF ne Some refl split refl refl refl True ns(1)] by simp
          then show ?thesis
            using ns(2) nx n1
              endpoints_addChild [of cur "hd search" "addChild ?next1 (hd (drop (length ?lcp) search)) ns"]
              endpoints_addChild [of ?next1 "hd (drop (length ?lcp) search)" ns]
            by blast
        next
          case False
          obtain nx' where nx': "insert_segs p f ?next1 segs keys = Inr nx'"
            "cur' = addChild cur (hd search) nx'"
            using "3.prems" ne Some split False
            by (auto simp: insert_static.simps Let_def split: sum.splits)
          have "endpoints nx' \<subseteq> endpoints ?next1 \<union> ?E"
            using "3.IH"(4) [OF ne Some refl split refl refl refl False nx'(1)] .
          then show ?thesis
            using nx'(2) nx n1 endpoints_addChild [of cur "hd search" nx'] by blast
        qed
      next
        case False
        obtain nx' where nx': "insert_static p f nxt (drop (length ?lcp) search) segs keys = Inr nx'"
          "cur' = addChild cur (hd search) nx'"
          using "3.prems" ne Some False
          by (auto simp: insert_static.simps Let_def split: sum.splits)
        have "endpoints nx' \<subseteq> endpoints nxt \<union> ?E"
          using "3.IH"(5) [OF ne Some refl False nx'(1)] .
        then show ?thesis
          using nx'(2) nx endpoints_addChild [of cur "hd search" nx'] by blast
      qed
    qed
  qed
qed


lemma endpoints_setChildren:
  "endpoints (setChildren n (children n')) \<subseteq> endpoints n \<union> endpoints n'"
  by (cases n; cases n') auto

lemma TrimSuffix_slash:
  "strings_TrimSuffix s ''/'' = (if s \<noteq> [] \<and> last s = CHR ''/'' then butlast s else s)"
proof (cases s rule: rev_cases)
  case Nil
  then show ?thesis by (simp add: strings_TrimSuffix_def)
next
  case (snoc ys y)
  then show ?thesis by (auto simp: strings_TrimSuffix_def)
qed

lemma Join_last:
  "segs \<noteq> [] \<Longrightarrow> last segs \<noteq> [] \<Longrightarrow>
     strings_Join segs sep \<noteq> [] \<and> last (strings_Join segs sep) = last (last segs)"
proof (induction segs)
  case Nil
  then show ?case by simp
next
  case (Cons e es)
  then show ?case by (cases es) auto
qed

lemma pattern_segments_cleanPath: "pattern_segments (cleanPath p) = pattern_segments p"
proof (cases "pattern_segments p = []")
  case True
  then show ?thesis by (simp add: cleanPath_segments) (simp add: pattern_segments_def strings_TrimSuffix_def)
next
  case False
  let ?segs = "pattern_segments p"
  have ok: "\<forall>s\<in>set ?segs. s \<noteq> [] \<and> CHR ''/'' \<notin> set s" by (rule pattern_segments_ok)
  then have l: "last ?segs \<noteq> []" "CHR ''/'' \<notin> set (last ?segs)" using False by auto
  have "strings_Join ?segs ''/'' \<noteq> [] \<and> last (strings_Join ?segs ''/'') = last (last ?segs)"
    using False l(1) by (rule Join_last)
  moreover have "last (last ?segs) \<noteq> CHR ''/''" using l by (metis last_in_set)
  ultimately have "strings_TrimSuffix (strings_Join ?segs ''/'') ''/'' = strings_Join ?segs ''/''"
    by (simp add: TrimSuffix_slash)
  moreover have "strings_Split (strings_Join ?segs ''/'') CHR ''/'' = ?segs"
    using False ok by (simp add: Split_Join)
  moreover have "filter (\<lambda>seg. seg \<noteq> []) ?segs = ?segs" using ok by (simp add: filter_id_conv)
  ultimately have "pattern_segments (CHR ''/'' # strings_Join ?segs ''/'') = ?segs"
    by (simp add: pattern_segments_def [of "CHR ''/'' # strings_Join ?segs ''/''"])
  then show ?thesis by (simp add: cleanPath_segments)
qed

lemma tree_insert_sound:
  assumes "tree_insert t p f = Inr t'" "\<forall>e\<in>endpoints t. sound_endpoint e"
  shows "\<forall>e\<in>endpoints t'. sound_endpoint e"
proof (cases "isValidPath (cleanPath p)")
  case (Inl e)
  then show ?thesis using assms by (simp add: tree_insert_def)
next
  case (Inr ok)
  show ?thesis
  proof (cases ok)
    case False
    then show ?thesis using assms Inr by (simp add: tree_insert_def)
  next
    case True
    let ?segs = "pattern_segments p"
    have v: "isValidPath (cleanPath p) = Inr True" using Inr True by simp
    have sp: "splitPath (cleanPath p) = Inr (spec_tokens ?segs)"
      using splitPath_Join_spec [OF valid_segments_nonempty [OF v] pattern_segments_ok]
      by (simp add: cleanPath_segments)
    then have "insert_segs (cleanPath p) f t (spec_tokens ?segs) [] = Inr t'"
      using assms(1) v by (simp add: tree_insert_def)
    then have "endpoints t' \<subseteq> endpoints t
                 \<union> {Endpoint f (cleanPath p) ([] @ segment_names (spec_tokens ?segs))}"
      by (rule insert_new_endpoint(1))
    moreover have "sound_endpoint (Endpoint f (cleanPath p) ([] @ segment_names (spec_tokens ?segs)))"
      using v by (simp add: sound_endpoint_def segment_names_spec_tokens pattern_segments_cleanPath)
    ultimately show ?thesis using assms(2) by blast
  qed
qed

lemma reachable_valid_endpoints: "reachable a \<Longrightarrow> valid_endpoints a"
proof (induction rule: reachable.induct)
  case (reachable_New cs)
  then show ?case by (simp add: valid_endpoints_def trees_New)
next
  case (reachable_Router a pth ms)
  then show ?case by (simp add: valid_endpoints_def App_Router_def Let_def)
next
  case (reachable_Handle a m r p ms h a')
  show ?case
  proof (cases "trees a m")
    case None
    then have "a' = a" using reachable_Handle.hyps(2)
      by (auto simp: Handle_def mkRoute_def getTree_def split: sum.splits bool.splits)
    then show ?thesis using reachable_Handle.IH by simp
  next
    case (Some entry)
    then obtain n' where n':
      "tree_insert entry (cleanPath (path r @ p)) (chainMws (mws r @ ms) h) = Inr n'"
      "a' = a\<lparr>trees := (trees a)(m \<mapsto> setChildren entry (children n'))\<rparr>"
      using reachable_Handle.hyps(2)
      by (auto simp: Handle_def mkRoute_def getTree_def split: sum.splits)
    have e: "\<forall>e\<in>endpoints entry. sound_endpoint e"
      using reachable_Handle.IH Some by (auto simp: valid_endpoints_def)
    then have "\<forall>e\<in>endpoints n'. sound_endpoint e"
      using tree_insert_sound [OF n'(1)] by simp
    then have "\<forall>e\<in>endpoints (setChildren entry (children n')). sound_endpoint e"
      using e endpoints_setChildren [of entry n'] by blast
    then show ?thesis using reachable_Handle.IH n'(2)
      by (auto simp: valid_endpoints_def)
  qed
qed




subsection \<open>What resolution returns in an application built by registrations\<close>

text \<open>
  \<open>find\<close> only ever moves from a node to one of its children or special slots, so the
  endpoint it returns is one of the endpoints stored in the tree.
\<close>

lemma find_loop_descendant:
  "find_loop cur pl st params q = Inr (Some trm, ps) \<Longrightarrow> endpoints trm \<subseteq> endpoints cur"
proof (induction cur pl st params q arbitrary: trm ps rule: find_loop.induct)
  case (1 cur prevLabel start params)
  then show ?case by simp
next
  case (2 cur prevLabel start params c p')
  show ?case
  proof (cases "c = CHR ''/''")
    case True
    then show ?thesis using 2 by simp
  next
    case False
    let ?p = "c # p'"
    let ?label = "case prevLabel of None \<Rightarrow> c | Some l \<Rightarrow> l"
    show ?thesis
    proof (cases "map_of (children cur) ?label")
      case (Some child)
      have ch: "endpoints child \<subseteq> endpoints cur" using Some by (rule endpoints_child)
      let ?lcp = "longestPrefix ?p (drop start (prefix child))"
      have le: "\<not> start > length (prefix child)"
        using "2.prems" False Some by (auto simp: Let_def split: if_splits)
      show ?thesis
      proof (cases "length ?lcp = 0")
        case True
        then show ?thesis using "2.prems" False Some le by (simp add: Let_def)
      next
        case nz: False
        show ?thesis
        proof (cases "length ?lcp + start = length (prefix child)")
          case True
          then have "find_loop child None 0 params (drop (length ?lcp) ?p) = Inr (Some trm, ps)"
            using "2.prems" False Some le nz by (simp add: Let_def)
          then have "endpoints trm \<subseteq> endpoints child"
            using "2.IH"(5) [OF False refl refl Some le refl nz True] le by simp
          then show ?thesis using ch by blast
        next
          case ne: False
          then have "find_loop cur (Some ?label) (start + length ?lcp) params (drop (length ?lcp) ?p)
                       = Inr (Some trm, ps)"
            using "2.prems" False Some le nz by (simp add: Let_def)
          then show ?thesis
            using "2.IH"(6) [OF False refl refl Some le refl nz ne] le by simp
        qed
      qed
    next
      case None
      show ?thesis
      proof (cases "special cur param")
        case (Some pn)
        have pn: "endpoints pn \<subseteq> endpoints cur" using Some by (rule endpoints_special)
        show ?thesis
        proof (cases "strings_IndexByte ?p CHR ''/''")
          case n: None
          then have "find_loop pn prevLabel start (params @ [?p]) [] = Inr (Some trm, ps)"
            using "2.prems" False None Some by (simp add: Let_def del: strings_IndexByte.simps)
          then show ?thesis using pn by auto
        next
          case (Some j)
          then have "find_loop pn prevLabel start (params @ [take j ?p]) (drop (Suc j) ?p)
                       = Inr (Some trm, ps)"
            using "2.prems" False None \<open>special cur param = Some pn\<close>
            by (simp add: Let_def del: strings_IndexByte.simps)
          then have "endpoints trm \<subseteq> endpoints pn"
            using "2.IH"(4) [OF False refl refl None \<open>special cur param = Some pn\<close> Some] by simp
          then show ?thesis using pn by blast
        qed
      next
        case np: None
        show ?thesis
        proof (cases "special cur catchAll")
          case (Some ca)
          have "endpoints ca \<subseteq> endpoints cur" using Some by (rule endpoints_special)
          moreover have "trm = ca" using "2.prems" False None np Some by (simp add: Let_def)
          ultimately show ?thesis by simp
        next
          case nc: None
          then show ?thesis using "2.prems" False None np by (simp add: Let_def)
        qed
      qed
    qed
  qed
qed

lemma tree_find_endpoint:
  "tree_find t q = Inr (Some e, pm) \<Longrightarrow> e \<in> endpoints t"
proof -
  assume a: "tree_find t q = Inr (Some e, pm)"
  then obtain trm ps where f: "find_loop t None 0 [] q = Inr (Some trm, ps)" "endpoint trm = Some e"
    by (auto simp: tree_find_def split: sum.splits option.splits prod.splits)
  have "e \<in> endpoints trm" using f(2) by (cases trm) auto
  then show ?thesis using find_loop_descendant [OF f(1)] by blast
qed

lemma reachable_find_keys:
  assumes "reachable a" "trees a m = Some t" "tree_find t q = Inr (Some e, pm)"
  shows "dom pm = set (segment_names (pattern_segments (fullPath e)))
         \<and> isValidPath (fullPath e) = Inr True"
proof -
  have "sound_endpoint e"
    using reachable_valid_endpoints [OF assms(1)] assms(2) tree_find_endpoint [OF assms(3)]
    by (auto simp: valid_endpoints_def)
  moreover have "dom pm = set (pKeys e)"
    using assms(3) by (auto simp: tree_find_def pMap_loop_dom split: sum.splits option.splits prod.splits)
  ultimately show ?thesis by (simp add: sound_endpoint_def)
qed

subsection \<open>A route registered on the fresh application\<close>

text \<open>
  An insertion that starts with a literal token writes into the children map of the
  node it starts from and leaves the other fields of that node alone; so, on the fresh
  application, where the root has no special child, the whole tree that \<open>insert\<close> builds
  in the copy of the root is seen through \<open>trees\<close>.
\<close>

lemma root_router_eq: "root_router = \<lparr>path = ''/'', mws = []\<rparr>"
  by (simp add: root_router_def App_Router_def Let_def)

lemma setChildren_addChild:
  "setChildren cur (AList.update k c (children cur)) = addChild cur k c"
  by (cases cur) simp

lemma insert_static_root:
  assumes "search \<noteq> []" "insert_static p f cur search segs keys = Inr cur'"
  shows "setChildren cur (children cur') = cur'"
  using assms
  by (subst (asm) insert_static.simps)
     (auto simp: Let_def setChildren_addChild split: option.splits sum.splits if_splits)

lemma pattern_segments_slash: "pattern_segments (CHR ''/'' # p) = pattern_segments p"
proof (cases p)
  case Nil
  then show ?thesis by (simp add: pattern_segments_def strings_TrimSuffix_def strings_TrimPrefix_def)
next
  case (Cons c s)
  show ?thesis
  proof (cases "c = CHR ''/''")
    case False
    then show ?thesis using Cons by (simp add: pattern_segments_def strings_TrimPrefix_def)
  next
    case True
    show ?thesis
    proof (cases "s = []")
      case True
      then show ?thesis using Cons \<open>c = CHR ''/''\<close>
        by (simp add: pattern_segments_def TrimSuffix_slash)
    next
      case False
      then have "strings_TrimSuffix (CHR ''/'' # s) ''/'' = CHR ''/'' # strings_TrimSuffix s ''/''"
        by (simp add: TrimSuffix_slash)
      then show ?thesis using Cons True
        by (simp add: pattern_segments_def)
    qed
  qed
qed

lemma spec_tokens_head_static:
  assumes "segs \<noteq> []" "isStaticSeg (hd segs)"
  shows "\<exists>tok toks. spec_tokens segs = tok # toks \<and> tok \<noteq> [] \<and> getSegmentType tok = Inr static"
proof -
  obtain s ss where segs: "segs = s # ss" using assms(1) by (cases segs) auto
  then have st: "isStaticSeg s" using assms(2) by simp
  then obtain c cs where s: "s = c # cs" by (cases s) (auto simp: isStaticSeg_def)
  have "getSegmentType (concat (s # takeWhile isStaticSeg ss)) = Inr static"
    using st s by (simp add: isStaticSeg_def)
  then show ?thesis using segs st s by simp
qed

lemma fresh_app_route_find:
  assumes valid: "isValidPath (cleanPath p) = Inr True"
    and lit: "isStaticSeg (hd (pattern_segments p))"
    and m: "match_segments (pattern_segments p) q = Some vals"
  shows "\<exists>a' t. Handle root_app (Get root_app \<lparr>path = ''/'', mws = P\<rparr> p R) h = Inr a'
           \<and> trees a' mGET = Some t
           \<and> tree_find t (CHR ''/'' # q) =
               Inr (Some (Endpoint (chainMws (P @ R) h) (cleanPath p)
                            (segment_names (pattern_segments p))),
                    map_of (zip (segment_names (pattern_segments p)) vals))
           \<and> (\<forall>w. internalHandler a' (get_request (CHR ''/'' # q)) w =
                  Inr (chainMws (P @ R) h
                         ((get_request (CHR ''/'' # q))
                            \<lparr>reqParams := Some (map_of (zip (segment_names (pattern_segments p)) vals))\<rparr>)
                         w))"
proof -
  let ?f = "chainMws (P @ R) h"
  let ?p' = "cleanPath (''/'' @ p)"
  let ?segs = "pattern_segments p"
  have ps: "pattern_segments ?p' = ?segs"
    by (simp add: pattern_segments_cleanPath pattern_segments_slash)
  have cp: "cleanPath ?p' = cleanPath p"
    using ps cleanPath_segments [of ?p'] cleanPath_segments [of p] by simp
  obtain t where t: "tree_insert newTree p ?f = Inr t"
    "tree_find t (CHR ''/'' # q) =
       Inr (Some (Endpoint ?f (cleanPath p) (segment_names ?segs)),
            map_of (zip (segment_names ?segs) vals))"
    using single_route_find [OF valid m, of ?f] by blast
  have ins': "tree_insert newTree ?p' ?f = Inr t"
    using t(1) cp by (simp add: tree_insert_def)
  have ne: "?segs \<noteq> []" using valid by (rule valid_segments_nonempty)
  have sp: "splitPath (cleanPath p) = Inr (spec_tokens ?segs)"
    using splitPath_Join_spec [OF ne pattern_segments_ok] by (simp add: cleanPath_segments)
  obtain tok toks where tk: "spec_tokens ?segs = tok # toks" "tok \<noteq> []"
    "getSegmentType tok = Inr static"
    using spec_tokens_head_static [OF ne lit] by blast
  have "insert_static (cleanPath p) ?f newTree tok toks [] = Inr t"
    using t(1) valid sp tk by (simp add: tree_insert_def)
  then have root: "setChildren newTree (children t) = t"
    by (rule insert_static_root [OF tk(2)])
  let ?a' = "root_app\<lparr>trees := (trees root_app)(mGET \<mapsto> t)\<rparr>"
  have H: "Handle root_app (Get root_app \<lparr>path = ''/'', mws = P\<rparr> p R) h = Inr ?a'"
    using ins' root setChildren_children [of "newTree :: handler node"]
    by (simp add: Handle_def Get_def mkRoute_def getTree_def trees_root_app)
  have nf: "\<And>w. internalHandler ?a' (get_request (CHR ''/'' # q)) w =
                  Inr (?f ((get_request (CHR ''/'' # q))
                            \<lparr>reqParams := Some (map_of (zip (segment_names ?segs) vals))\<rparr>) w)"
    using t(2)
    by (simp add: internalHandler_def Let_def get_request_def Header_Get_def methodLookup_def)
  show ?thesis using H t(2) nf by auto
qed

subsection \<open>What a registration stores\<close>

lemma tree_insert_new_endpoint:
  assumes "tree_insert t p f = Inr t'" "e \<in> endpoints t'"
  shows "e \<in> endpoints t \<or> fn e = f"
proof (cases "isValidPath (cleanPath p)")
  case (Inl x)
  then show ?thesis using assms by (simp add: tree_insert_def)
next
  case (Inr ok)
  show ?thesis
  proof (cases ok)
    case False
    then show ?thesis using assms Inr by (simp add: tree_insert_def)
  next
    case True
    then obtain segs where "insert_segs (cleanPath p) f t segs [] = Inr t'"
      using assms(1) Inr by (auto simp: tree_insert_def Let_def split: sum.splits)
    then have "endpoints t' \<subseteq> endpoints t \<union> {Endpoint f (cleanPath p) ([] @ segment_names segs)}"
      by (rule insert_new_endpoint(1))
    then show ?thesis using assms(2) by auto
  qed
qed

lemma Handle_stores_chain:
  assumes "Handle a (mkRoute a m rt p ms) h = Inr a'" "trees a' m' = Some t'" "e \<in> endpoints t'"
  shows "fn e = chainMws (mws rt @ ms) h \<or> (\<exists>t. trees a m' = Some t \<and> e \<in> endpoints t)"
proof (cases "trees a m")
  case None
  then have "a' = a" using assms(1)
    by (auto simp: Handle_def mkRoute_def getTree_def split: sum.splits bool.splits)
  then show ?thesis using assms by auto
next
  case (Some entry)
  then obtain n' where n':
    "tree_insert entry (cleanPath (path rt @ p)) (chainMws (mws rt @ ms) h) = Inr n'"
    "a' = a\<lparr>trees := (trees a)(m \<mapsto> setChildren entry (children n'))\<rparr>"
    using assms(1)
    by (auto simp: Handle_def mkRoute_def getTree_def split: sum.splits)
  show ?thesis
  proof (cases "m' = m")
    case False
    then show ?thesis using assms n'(2) by auto
  next
    case True
    then have "t' = setChildren entry (children n')" using assms(2) n'(2) by simp
    then have "e \<in> endpoints entry \<or> e \<in> endpoints n'"
      using assms(3) endpoints_setChildren [of entry n'] by blast
    then show ?thesis using tree_insert_new_endpoint [OF n'(1)] Some True by blast
  qed
qed

subsection \<open>The values of the parameter map\<close>

text \<open>Every value collected by \<open>find\<close> is a non-empty piece of the request path.\<close>

lemma piece_drop:
  "\<exists>pre suf. drop n q = pre @ v @ suf \<Longrightarrow> \<exists>pre suf. q = pre @ v @ (suf :: 'a list)"
proof -
  assume "\<exists>pre suf. drop n q = pre @ v @ suf"
  then obtain pre suf where "drop n q = pre @ v @ suf" by blast
  then have "q = (take n q @ pre) @ v @ suf"
    using append_take_drop_id [of n q] by simp
  then show ?thesis by blast
qed

lemma piece_Cons:
  "\<exists>pre suf. q = pre @ v @ suf \<Longrightarrow> \<exists>pre suf. c # q = pre @ v @ (suf :: 'a list)"
  by (metis append_Cons)

lemma find_loop_values:
  "find_loop cur pl st params q = Inr (res, ps) \<Longrightarrow>
     \<forall>v\<in>set ps. v \<in> set params \<or> (v \<noteq> [] \<and> (\<exists>pre suf. q = pre @ v @ suf))"
proof (induction cur pl st params q arbitrary: res ps rule: find_loop.induct)
  case (1 cur prevLabel start params)
  then show ?case by simp
next
  case (2 cur prevLabel start params c p')
  show ?case
  proof (cases "c = CHR ''/''")
    case True
    then have "find_loop cur prevLabel start params p' = Inr (res, ps)" using "2.prems" by simp
    then have "\<forall>v\<in>set ps. v \<in> set params \<or> (v \<noteq> [] \<and> (\<exists>pre suf. p' = pre @ v @ suf))"
      using "2.IH"(1) [OF True] by simp
    then show ?thesis using piece_Cons [of p' _ c] by blast
  next
    case False
    let ?p = "c # p'"
    let ?label = "case prevLabel of None \<Rightarrow> c | Some l \<Rightarrow> l"
    show ?thesis
    proof (cases "map_of (children cur) ?label")
      case (Some child)
      let ?lcp = "longestPrefix ?p (drop start (prefix child))"
      have le: "\<not> start > length (prefix child)"
        using "2.prems" False Some by (auto simp: Let_def split: if_splits)
      show ?thesis
      proof (cases "length ?lcp = 0")
        case True
        then show ?thesis using "2.prems" False Some le by (auto simp: Let_def)
      next
        case nz: False
        show ?thesis
        proof (cases "length ?lcp + start = length (prefix child)")
          case True
          then have "find_loop child None 0 params (drop (length ?lcp) ?p) = Inr (res, ps)"
            using "2.prems" False Some le nz by (simp add: Let_def)
          then have "\<forall>v\<in>set ps. v \<in> set params
                       \<or> (v \<noteq> [] \<and> (\<exists>pre suf. drop (length ?lcp) ?p = pre @ v @ suf))"
            using "2.IH"(5) [OF False refl refl Some le refl nz True] by simp
          then show ?thesis using piece_drop [of "length ?lcp" ?p] by blast
        next
          case ne: False
          then have "find_loop cur (Some ?label) (start + length ?lcp) params (drop (length ?lcp) ?p)
                       = Inr (res, ps)"
            using "2.prems" False Some le nz by (simp add: Let_def)
          then have "\<forall>v\<in>set ps. v \<in> set params
                       \<or> (v \<noteq> [] \<and> (\<exists>pre suf. drop (length ?lcp) ?p = pre @ v @ suf))"
            using "2.IH"(6) [OF False refl refl Some le refl nz ne] by simp
          then show ?thesis using piece_drop [of "length ?lcp" ?p] by blast
        qed
      qed
    next
      case None
      have whole: "?p \<noteq> [] \<and> (\<exists>pre suf. ?p = pre @ ?p @ suf)"
        by (metis append_Nil append_Nil2 list.distinct(1))
      show ?thesis
      proof (cases "special cur param")
        case (Some pn)
        show ?thesis
        proof (cases "strings_IndexByte ?p CHR ''/''")
          case n: None
          then have "find_loop pn prevLabel start (params @ [?p]) [] = Inr (res, ps)"
            using "2.prems" False None Some by (simp add: Let_def del: strings_IndexByte.simps)
          then have "ps = params @ [?p]" by simp
          then show ?thesis using whole by auto
        next
          case (Some j)
          then have jpos: "0 < j" using False
            by (auto simp: IndexByte_takeWhile split: if_splits simp del: strings_IndexByte.simps)
          have "?p = [] @ take j ?p @ drop j ?p" by simp
          then have "\<exists>pre suf. ?p = pre @ take j ?p @ suf" by blast
          moreover have "take j ?p \<noteq> []" using jpos by (cases j) auto
          ultimately have tk: "take j ?p \<noteq> [] \<and> (\<exists>pre suf. ?p = pre @ take j ?p @ suf)"
            by blast
          have "find_loop pn prevLabel start (params @ [take j ?p]) (drop (Suc j) ?p)
                       = Inr (res, ps)"
            using "2.prems" False None \<open>special cur param = Some pn\<close> Some
            by (simp add: Let_def del: strings_IndexByte.simps)
          then have ih: "\<forall>v\<in>set ps. v \<in> set (params @ [take j ?p])
                       \<or> (v \<noteq> [] \<and> (\<exists>pre suf. drop (Suc j) ?p = pre @ v @ suf))"
            using "2.IH"(4) [OF False refl refl None \<open>special cur param = Some pn\<close> Some] by simp
          show ?thesis
          proof
            fix v
            assume "v \<in> set ps"
            then consider "v \<in> set params" | "v = take j ?p"
              | "v \<noteq> [] \<and> (\<exists>pre suf. drop (Suc j) ?p = pre @ v @ suf)"
              using ih by auto
            then show "v \<in> set params \<or> (v \<noteq> [] \<and> (\<exists>pre suf. ?p = pre @ v @ suf))"
            proof cases
              case 1
              then show ?thesis by simp
            next
              case 2
              then show ?thesis using tk by simp
            next
              case 3
              then show ?thesis using piece_drop [of "Suc j" ?p v] by blast
            qed
          qed
        qed
      next
        case np: None
        show ?thesis
        proof (cases "special cur catchAll")
          case (Some ca)
          then have "ps = params @ [?p]" using "2.prems" False None np by (simp add: Let_def)
          then show ?thesis using whole by auto
        next
          case nc: None
          then show ?thesis using "2.prems" False None np by (auto simp: Let_def)
        qed
      qed
    qed
  qed
qed

lemma pMap_loop_values:
  "pMap_loop i ks params m = Inr pm \<Longrightarrow> pm k = Some v \<Longrightarrow> m k = Some v \<or> v \<in> set params"
proof (induction ks arbitrary: i m)
  case Nil
  then show ?case by simp
next
  case (Cons k' ks)
  then have i: "i < length params" and
    r: "pMap_loop (Suc i) ks params (m(k' \<mapsto> params ! i)) = Inr pm"
    by (auto split: if_splits)
  from Cons.IH [OF r Cons.prems(2)] i show ?case by (auto split: if_splits)
qed

lemma tree_find_values:
  assumes "tree_find t q = Inr (Some e, pm)" "pm k = Some v"
  shows "v \<noteq> [] \<and> (\<exists>pre suf. q = pre @ v @ suf)"
proof -
  obtain trm ps where f: "find_loop t None 0 [] q = Inr (Some trm, ps)"
    "pMap_loop 0 (pKeys e) ps Map.empty = Inr pm"
    using assms(1)
    by (auto simp: tree_find_def split: sum.splits option.splits prod.splits)
  have "v \<in> set ps" using pMap_loop_values [OF f(2) assms(2)] by simp
  then show ?thesis using find_loop_values [OF f(1)] by auto
qed

subsection \<open>Two routes that share an edge\<close>

lemma shared_facts:
  "cleanPath ''/ab/c/:x'' = ''/ab/c/:x''" "isValidPath ''/ab/c/:x'' = Inr True"
  "splitPath ''/ab/c/:x'' = Inr [''abc'', '':x'']"
  "cleanPath ''/abc/:y'' = ''/abc/:y''" "isValidPath ''/abc/:y'' = Inr True"
  "splitPath ''/abc/:y'' = Inr [''abc'', '':y'']"
  "cleanPath ''/a/:x'' = ''/a/:x''" "isValidPath ''/a/:x'' = Inr True"
  "splitPath ''/a/:x'' = Inr [''a'', '':x'']"
  "cleanPath ''/a/*'' = ''/a/*''" "isValidPath ''/a/*'' = Inr True"
  "splitPath ''/a/*'' = Inr [''a'', ''*'']"
  "cleanPath ''/users/:id'' = ''/users/:id''" "isValidPath ''/users/:id'' = Inr True"
  "splitPath ''/users/:id'' = Inr [''users'', '':id'']"
  "cleanPath ''/use/:name'' = ''/use/:name''" "isValidPath ''/use/:name'' = Inr True"
  "splitPath ''/use/:name'' = Inr [''use'', '':name'']"
  by code_simp+

lemma users_use_find:
  "find_after [(''/users/:id'', h1), (''/use/:name'', h2)] ''/users/42'' =
     Inr (Some (Endpoint h1 ''/users/:id'' [''id'']), [''id'' \<mapsto> ''42''])"
  "find_after [(''/users/:id'', h1), (''/use/:name'', h2)] ''/use/bob'' =
     Inr (Some (Endpoint h2 ''/use/:name'' [''name'']), [''name'' \<mapsto> ''bob''])"
  by (simp_all add: find_after_def insert_all.simps eval_insert shared_facts tree_find_def)

section \<open>The claims\<close>

subsection \<open>C7: the onion order of a middleware chain\<close>

text \<open>
  Claim C7. Composing the ordered list \<open>[m1, \<dots>, mN]\<close> around a handler \<open>h\<close> yields the
  onion \<open>m1 (m2 (\<dots> (mN h)))\<close>: for middlewares given by functions from handler to
  handler, the composed handler is the fold of the list around \<open>h\<close>. For the logging
  middlewares of the repository's test, an invocation appends the entry events from the
  leftmost to the rightmost middleware, then \<open>handler\<close>, then the exit events in the
  reverse order; for \<open>[m1, m2]\<close> on a fresh world the events are
  \<open>before_m1, before_m2, handler, after_m2, after_m1\<close>.
\<close>

theorem chainMws_onion:
  "chainMws (map pure_mw ms) h = foldr (\<lambda>m acc. m acc) ms h
   \<and> events (chainMws (map order_mw names) order_handler r w) =
       events w @ map (\<lambda>n. ''before_'' @ n) names @ [''handler'']
         @ rev (map (\<lambda>n. ''after_'' @ n) names)
   \<and> events (chainMws [order_mw ''m1'', order_mw ''m2''] order_handler r fresh_world) =
       [''before_m1'', ''before_m2'', ''handler'', ''after_m2'', ''after_m1'']"
proof (intro conjI)
  show "chainMws (map pure_mw ms) h = foldr (\<lambda>m acc. m acc) ms h"
    by (induction ms) (simp_all add: chainMws_foldr wrap_pure_mw)
  show "events (chainMws (map order_mw names) order_handler r w) =
       events w @ map (\<lambda>n. ''before_'' @ n) names @ [''handler'']
         @ rev (map (\<lambda>n. ''after_'' @ n) names)"
    by (rule events_order_chain)
  show "events (chainMws [order_mw ''m1'', order_mw ''m2''] order_handler r fresh_world) =
       [''before_m1'', ''before_m2'', ''handler'', ''after_m2'', ''after_m1'']"
    using events_order_chain [of "[''m1'', ''m2'']" r fresh_world]
    by (simp add: fresh_world_def)
qed

subsection \<open>C4: when the middleware functions are applied\<close>

text \<open>
  Claim C4 says that \<open>chainMws\<close> applies each middleware to its next handler at
  composition time and that invoking the composed handler applies no middleware again.
  The closure built by \<open>chainMws\<close> evaluates \<open>mw(next)\<close> inside its body: with a
  middleware that records its applications, two invocations of the handler composed
  once record two applications.
\<close>

theorem chainMws_reapplies_counterexample:
  "events (chainMws [applied_mw ''m1''] order_handler (get_request ''/'')
             (chainMws [applied_mw ''m1''] order_handler (get_request ''/'') fresh_world)) =
     [''apply_m1'', ''handler'', ''apply_m1'', ''handler'']"
  by code_simp

text \<open>
  Claim C4, amended. \<open>chainMws\<close> is called once per route, by \<open>Handle\<close> at registration,
  and only builds closures; the empty chain is the handler itself. The trie stores the
  closure that \<open>chainMws\<close> returns: after \<open>Method(p, ms...).Handle(h)\<close> on a router, every
  handler stored in a tree of the application is the chain of the router's and the
  route's middlewares around \<open>h\<close> or was stored before; and on the fresh application,
  for every valid pattern that starts with a literal segment and every request that
  matches it, the tree resolves the request to the endpoint whose handler is that chain,
  which is what the dispatcher calls. Each invocation of the composed handler applies
  the first middleware to the rest of the chain, in the world of the invocation, and
  calls the result; so with middlewares that record their applications every invocation
  records one application of each, in list order, before the handler runs, and two
  requests served by the application record the applications twice.
\<close>

theorem chainMws_applies_per_invocation:
  "chainMws [] h = h
   \<and> chainMws (mw # rest) h r w = (case mw (chainMws rest h) w of (h', w') \<Rightarrow> h' r w')
   \<and> events (chainMws (map applied_mw names) order_handler r w) =
       events w @ map (\<lambda>n. ''apply_'' @ n) names @ [''handler'']
   \<and> (Handle a (mkRoute a m rt p ms) g = Inr a' \<and> trees a' m' = Some t' \<and> e \<in> endpoints t'
        \<longrightarrow> fn e = chainMws (mws rt @ ms) g \<or> (\<exists>t. trees a m' = Some t \<and> e \<in> endpoints t))
   \<and> (isValidPath (cleanPath pat) = Inr True \<and> isStaticSeg (hd (pattern_segments pat))
        \<and> match_segments (pattern_segments pat) q = Some vals
        \<longrightarrow> (\<exists>a1 t pm.
               Handle root_app (Get root_app \<lparr>path = ''/'', mws = ps\<rparr> pat rs) f = Inr a1
               \<and> trees a1 mGET = Some t
               \<and> tree_find t (CHR ''/'' # q) =
                   Inr (Some (Endpoint (chainMws (ps @ rs) f) (cleanPath pat)
                                (segment_names (pattern_segments pat))), pm)
               \<and> (\<forall>w0. internalHandler a1 (get_request (CHR ''/'' # q)) w0 =
                      Inr (chainMws (ps @ rs) f
                             ((get_request (CHR ''/'' # q))\<lparr>reqParams := Some pm\<rparr>) w0))))
   \<and> (\<exists>a2 w1 w2.
          Handle root_app (Get root_app root_router ''/x'' [applied_mw ''m1'']) order_handler = Inr a2
          \<and> internalHandler a2 (get_request ''/x'') fresh_world = Inr w1
          \<and> events w1 = [''apply_m1'', ''handler'']
          \<and> internalHandler a2 (get_request ''/x'') w1 = Inr w2
          \<and> events w2 = [''apply_m1'', ''handler'', ''apply_m1'', ''handler''])"
proof (intro conjI impI)
  show "chainMws [] h = h" by (simp add: chainMws_foldr)
  show "chainMws (mw # rest) h r w = (case mw (chainMws rest h) w of (h', w') \<Rightarrow> h' r w')"
    by (simp add: chainMws_foldr wrap_def)
  show "events (chainMws (map applied_mw names) order_handler r w) =
       events w @ map (\<lambda>n. ''apply_'' @ n) names @ [''handler'']"
    by (rule events_applied_chain)
next
  assume "Handle a (mkRoute a m rt p ms) g = Inr a' \<and> trees a' m' = Some t' \<and> e \<in> endpoints t'"
  then show "fn e = chainMws (mws rt @ ms) g \<or> (\<exists>t. trees a m' = Some t \<and> e \<in> endpoints t)"
    using Handle_stores_chain [of a m rt p ms g a' m' t' e] by blast
next
  assume "isValidPath (cleanPath pat) = Inr True \<and> isStaticSeg (hd (pattern_segments pat))
        \<and> match_segments (pattern_segments pat) q = Some vals"
  then show "\<exists>a1 t pm.
               Handle root_app (Get root_app \<lparr>path = ''/'', mws = ps\<rparr> pat rs) f = Inr a1
               \<and> trees a1 mGET = Some t
               \<and> tree_find t (CHR ''/'' # q) =
                   Inr (Some (Endpoint (chainMws (ps @ rs) f) (cleanPath pat)
                                (segment_names (pattern_segments pat))), pm)
               \<and> (\<forall>w0. internalHandler a1 (get_request (CHR ''/'' # q)) w0 =
                      Inr (chainMws (ps @ rs) f
                             ((get_request (CHR ''/'' # q))\<lparr>reqParams := Some pm\<rparr>) w0))"
    using fresh_app_route_find [of pat q vals ps rs f] by blast
next
  have v: "isValidPath (cleanPath ''/x'') = Inr True" by code_simp
  have l: "isStaticSeg (hd (pattern_segments ''/x''))" by code_simp
  have m: "match_segments (pattern_segments ''/x'') ''x'' = Some []" by code_simp
  let ?r = "(get_request ''/x'')
              \<lparr>reqParams := Some (map_of (zip (segment_names (pattern_segments ''/x'')) []))\<rparr>"
  let ?f = "chainMws ([] @ [applied_mw ''m1'']) order_handler"
  obtain a2 where a2:
    "Handle root_app (Get root_app root_router ''/x'' [applied_mw ''m1'']) order_handler = Inr a2"
    "\<And>w. internalHandler a2 (get_request ''/x'') w = Inr (?f ?r w)"
    using fresh_app_route_find [OF v l m, of "[]" "[applied_mw ''m1'']" order_handler]
    by (auto simp: root_router_eq)
  have ev: "\<And>w. events (?f ?r w) = events w @ [''apply_m1'', ''handler'']"
    using events_applied_chain [of "[''m1'']" ?r] by simp
  let ?w1 = "?f ?r fresh_world"
  let ?w2 = "?f ?r ?w1"
  have "events ?w1 = [''apply_m1'', ''handler'']"
    using ev [of fresh_world] by (simp add: fresh_world_def)
  moreover have "events ?w2 = [''apply_m1'', ''handler'', ''apply_m1'', ''handler'']"
    using ev [of ?w1] ev [of fresh_world] by (simp add: fresh_world_def)
  ultimately show "\<exists>a2 w1 w2.
          Handle root_app (Get root_app root_router ''/x'' [applied_mw ''m1'']) order_handler = Inr a2
          \<and> internalHandler a2 (get_request ''/x'') fresh_world = Inr w1
          \<and> events w1 = [''apply_m1'', ''handler'']
          \<and> internalHandler a2 (get_request ''/x'') w1 = Inr w2
          \<and> events w2 = [''apply_m1'', ''handler'', ''apply_m1'', ''handler'']"
    using a2 by blast
qed

theorem chainMws_applies_per_invocation_witness:
  "isValidPath (cleanPath ''/x'') = Inr True \<and> isStaticSeg (hd (pattern_segments ''/x''))
   \<and> match_segments (pattern_segments ''/x'') ''x'' = Some []
   \<and> (\<exists>a1 t pm.
          Handle root_app (Get root_app \<lparr>path = ''/'', mws = [applied_mw ''m0'']\<rparr> ''/x''
                   [applied_mw ''m1'']) order_handler = Inr a1
          \<and> trees a1 mGET = Some t
          \<and> tree_find t ''/x'' =
              Inr (Some (Endpoint (chainMws [applied_mw ''m0'', applied_mw ''m1''] order_handler)
                           ''/x'' []), pm))"
proof -
  have v: "isValidPath (cleanPath ''/x'') = Inr True" by code_simp
  have l: "isStaticSeg (hd (pattern_segments ''/x''))" by code_simp
  have m: "match_segments (pattern_segments ''/x'') ''x'' = Some []" by code_simp
  have c: "cleanPath ''/x'' = ''/x''" "segment_names (pattern_segments ''/x'') = []"
    by code_simp+
  have "\<exists>a1 t pm.
          Handle root_app (Get root_app \<lparr>path = ''/'', mws = [applied_mw ''m0'']\<rparr> ''/x''
                   [applied_mw ''m1'']) order_handler = Inr a1
          \<and> trees a1 mGET = Some t
          \<and> tree_find t ''/x'' =
              Inr (Some (Endpoint (chainMws [applied_mw ''m0'', applied_mw ''m1''] order_handler)
                           ''/x'' []), pm)"
    using chainMws_applies_per_invocation [where pat = "''/x''" and q = "''x''" and vals = "[]"
          and ps = "[applied_mw ''m0'']" and rs = "[applied_mw ''m1'']" and f = order_handler,
        THEN conjunct2, THEN conjunct2, THEN conjunct2, THEN conjunct2, THEN conjunct1] v l m c
    by auto
  then show ?thesis using v l m by blast
qed

subsection \<open>C5: the tokens of the splitter\<close>

text \<open>
  Claim C5 says that the token of a run of literal segments keeps the \<open>/\<close> between
  them, so that \<open>splitPath("/foo/bar")\<close> is \<open>["foo/bar"]\<close>. The loop appends the segments
  with \<open>cur += seg\<close>: the token is \<open>foobar\<close>.
\<close>

theorem splitPath_drops_slash_counterexample:
  "splitPath ''/foo/bar'' \<noteq> Inr [''foo/bar'']"
  by code_simp

text \<open>
  Claim C5, amended. The splitter merges every maximal run of consecutive literal
  segments into a single token, the concatenation of the segments without the \<open>/\<close>
  between them: for a path made of non-empty segments the tokens are \<open>spec_tokens\<close> of
  the segments; \<open>splitPath("/foo/bar") = ["foobar"]\<close> and
  \<open>splitPath("/foo/:id/bar") = ["foo", ":id", "bar"]\<close>.
\<close>

theorem splitPath_merges_static_runs:
  "(segs \<noteq> [] \<and> (\<forall>s\<in>set segs. s \<noteq> [] \<and> CHR ''/'' \<notin> set s)
      \<longrightarrow> splitPath (CHR ''/'' # strings_Join segs ''/'') = Inr (spec_tokens segs))
   \<and> splitPath ''/foo/bar'' = Inr [''foobar'']
   \<and> splitPath ''/foo/:id/bar'' = Inr [''foo'', '':id'', ''bar'']"
proof (intro conjI impI)
  assume "segs \<noteq> [] \<and> (\<forall>s\<in>set segs. s \<noteq> [] \<and> CHR ''/'' \<notin> set s)"
  then show "splitPath (CHR ''/'' # strings_Join segs ''/'') = Inr (spec_tokens segs)"
    by (simp add: splitPath_Join_spec)
next
  show "splitPath ''/foo/bar'' = Inr [''foobar'']" by code_simp
  show "splitPath ''/foo/:id/bar'' = Inr [''foo'', '':id'', ''bar'']" by code_simp
qed

theorem splitPath_merges_static_runs_witness:
  "splitPath (CHR ''/'' # strings_Join [''foo'', ''bar'', '':id'', ''x'', ''y''] ''/'') =
     Inr [''foobar'', '':id'', ''xy'']"
  using splitPath_merges_static_runs [of "[''foo'', ''bar'', '':id'', ''x'', ''y'']"]
  by (simp add: isStaticSeg_def)

subsection \<open>C10: the pattern of the root\<close>

text \<open>
  Claim C10 says that \<open>insert\<close> completes on every pattern, the pattern \<open>/\<close> included.
  On \<open>/\<close> (and on \<open>//\<close>, which \<open>cleanPath\<close> turns into \<open>/\<close>) the splitter splits the empty
  string into one empty piece and \<open>getSegmentType\<close> reads its first byte: the program
  panics with an index out of range, in any tree, and so does the registration of
  \<open>GET /\<close> on a router at \<open>/\<close>.
\<close>

theorem insert_root_pattern_panics:
  "getSegmentType [] = Inl IndexOutOfRange
   \<and> splitPath ''/'' = Inl IndexOutOfRange
   \<and> tree_insert t ''/'' f = Inl IndexOutOfRange
   \<and> tree_insert t ''//'' f = Inl IndexOutOfRange
   \<and> Handle root_app (Get root_app root_router ''/'' []) h = Inl IndexOutOfRange"
proof -
  have "isValidPath (cleanPath ''/'') = Inl IndexOutOfRange"
    "isValidPath (cleanPath ''//'') = Inl IndexOutOfRange"
    "isValidPath (cleanPath (cleanPath (''/'' @ ''/''))) = Inl IndexOutOfRange"
    "splitPath ''/'' = Inl IndexOutOfRange"
    by code_simp+
  then show ?thesis
    by (simp add: tree_insert_panic Handle_Get_panic path_root_router)
qed

subsection \<open>C8: rejected patterns\<close>




subsection \<open>C2: literal, parameter and catch-all under one node\<close>

text \<open>
  Claim C2 says that with \<open>/a/b\<close>, \<open>/a/:x\<close> and \<open>/a/*\<close> in one tree a request to
  \<open>/a/c/d\<close> returns the endpoint of \<open>/a/*\<close>. The resolver tries the catch-all child of a
  node only when the node has no parameter child, and it never goes back: the
  parameter child takes \<open>c\<close>, nothing below it matches \<open>d\<close>, and the lookup misses.
\<close>

theorem catch_all_shadowed_counterexample:
  "find_after [(''/a/b'', ''h1''), (''/a/:x'', ''h2''), (''/a/*'', ''h3'')] ''/a/c/d'' =
     Inr (None, Map.empty)"
  by (simp add: find_after_def abc_orders abc_find)

text \<open>
  Claim C2, amended. With the three routes \<open>/a/b\<close>, \<open>/a/:x\<close> and \<open>/a/*\<close> registered in
  one tree, in any of the six orders: a request to \<open>/a/b\<close> returns the endpoint of
  \<open>/a/b\<close>, with no parameter; a request to \<open>/a/c\<close> returns the endpoint of \<open>/a/:x\<close> with
  the parameter \<open>x = c\<close>; a request to \<open>/a/c/d\<close> returns no endpoint.
\<close>

theorem literal_then_param_all_orders:
  "\<forall>rs\<in>set [[(''/a/b'', h1), (''/a/:x'', h2), (''/a/*'', h3)],
              [(''/a/b'', h1), (''/a/*'', h3), (''/a/:x'', h2)],
              [(''/a/:x'', h2), (''/a/b'', h1), (''/a/*'', h3)],
              [(''/a/:x'', h2), (''/a/*'', h3), (''/a/b'', h1)],
              [(''/a/*'', h3), (''/a/b'', h1), (''/a/:x'', h2)],
              [(''/a/*'', h3), (''/a/:x'', h2), (''/a/b'', h1)]].
     find_after rs ''/a/b'' = Inr (Some (Endpoint h1 ''/a/b'' []), Map.empty)
     \<and> find_after rs ''/a/c'' = Inr (Some (Endpoint h2 ''/a/:x'' [''x'']), [''x'' \<mapsto> ''c''])
     \<and> find_after rs ''/a/c/d'' = Inr (None, Map.empty)"
  by (simp add: find_after_def abc_orders abc_find)

theorem literal_then_param_all_orders_witness:
  "find_after [(''/a/*'', ''h3''), (''/a/:x'', ''h2''), (''/a/b'', ''h1'')] ''/a/c'' =
     Inr (Some (Endpoint ''h2'' ''/a/:x'' [''x'']), [''x'' \<mapsto> ''c''])
   \<and> find_after [(''/a/*'', ''h3''), (''/a/:x'', ''h2''), (''/a/b'', ''h1'')] ''/a/b'' =
     Inr (Some (Endpoint ''h1'' ''/a/b'' []), Map.empty)"
  using literal_then_param_all_orders [of "''h1''" "''h2''" "''h3''"]
  by simp

subsection \<open>C1: the middlewares of a route of a group\<close>

text \<open>
  Claim C1 says that a route registered on a group runs the middlewares of the parent
  router, then those of the group, then its own. \<open>Group\<close> gives the new router the
  middlewares of the call only, and \<open>Get\<close> puts the router's before the route's: the
  list composed around the handler is the group's followed by the route's, without the
  parent's. With \<open>m1\<close> on the root router, \<open>m2\<close> on the group \<open>/g\<close> and \<open>m3\<close> on \<open>GET /x\<close>,
  a request to \<open>/g/x\<close> runs \<open>m2\<close> and \<open>m3\<close> around the handler and never \<open>m1\<close>.
\<close>

theorem group_route_omits_parent_middlewares:
  "route_mws (Get a (Group r pth cs) p rs) = cs @ rs
   \<and> served_events group_scenario (get_request ''/g/x'') =
       Inr [''before_m2'', ''before_m3'', ''handler'', ''after_m3'', ''after_m2'']"
proof
  show "route_mws (Get a (Group r pth cs) p rs) = cs @ rs"
    by (simp add: Get_def mkRoute_def Group_def)
  show "served_events group_scenario (get_request ''/g/x'') =
       Inr [''before_m2'', ''before_m3'', ''handler'', ''after_m3'', ''after_m2'']"
    by code_simp
qed

subsection \<open>C9: routes that start with a dynamic segment\<close>

text \<open>
  Claim C9 says that every accepted registration is seen by the dispatcher, also when
  the pattern starts with a parameter or a catch-all. \<open>insert\<close> writes the first node
  of such a pattern into the \<open>special\<close> array of the root it was given, which is the
  copy made by \<open>getTree\<close>: the registration of \<open>GET /:id\<close> or \<open>GET /*\<close> leaves the
  application as it was, no route is listed, and a request to \<open>/42\<close> is answered by the
  not-found handler. (A pattern that starts with a literal, \<open>/users/:id\<close>, is reached:
  its first node goes into the shared children map.)
\<close>

theorem dynamic_first_segment_route_lost:
  "Handle root_app (Get root_app root_router ''/:id'' []) h = Inr root_app
   \<and> Handle root_app (Get root_app root_router ''/*'' []) h = Inr root_app
   \<and> Routes root_app = []
   \<and> internalHandler root_app (get_request ''/42'') w = Inr (notFound (get_request ''/42'') w)
   \<and> served_events (Handle root_app (Get root_app root_router ''/users/:id'' []) order_handler)
        (get_request ''/users/42'') = Inr [''handler'']"
proof (intro conjI)
  have id: "cleanPath (''/'' @ ''/:id'') = ''/:id''" "cleanPath ''/:id'' = ''/:id''"
    "isValidPath ''/:id'' = Inr True" "splitPath ''/:id'' = Inr ['':id'']"
    by code_simp+
  show "Handle root_app (Get root_app root_router ''/:id'' []) h = Inr root_app"
    using id
    by (simp add: Handle_def Get_def mkRoute_def getTree_def trees_root_app path_root_router
          tree_insert_def newTree_def map_upd_triv)
  have star: "cleanPath (''/'' @ ''/*'') = ''/*''" "cleanPath ''/*'' = ''/*''"
    "isValidPath ''/*'' = Inr True" "splitPath ''/*'' = Inr [''*'']"
    by code_simp+
  show "Handle root_app (Get root_app root_router ''/*'' []) h = Inr root_app"
    using star
    by (simp add: Handle_def Get_def mkRoute_def getTree_def trees_root_app path_root_router
          tree_insert_def newTree_def map_upd_triv)
  show "Routes root_app = []" by (rule Routes_root_app)
  show "internalHandler root_app (get_request ''/42'') w =
          Inr (notFound (get_request ''/42'') w)"
    by (rule internalHandler_root_app)
  show "served_events (Handle root_app (Get root_app root_router ''/users/:id'' []) order_handler)
          (get_request ''/users/42'') = Inr [''handler'']"
    by code_simp
qed

subsection \<open>C3: the paths that reach a route of nested groups\<close>

text \<open>
  Claim C3 says that, after \<open>GET /settings\<close> is bound on the group chain \<open>/api\<close>,
  \<open>/v1\<close>, \<open>/admin\<close>, no request path other than \<open>/api/v1/admin/settings\<close> resolves to
  the route. The route is stored as the single edge \<open>apiv1adminsettings\<close> and the
  resolver skips every \<open>/\<close> of the request: \<open>GET /apiv1adminsettings\<close> reaches the
  handler too.
\<close>

theorem settings_other_path_counterexample:
  "served_events (settings_scenario order_handler) (get_request ''/apiv1adminsettings'') =
     Inr [''handler'']"
  by code_simp

text \<open>
  Claim C3, amended. After the group chain \<open>/api\<close>, \<open>/v1\<close>, \<open>/admin\<close> and the binding of
  \<open>GET /settings\<close> on the innermost group, the GET tree resolves
  \<open>/api/v1/admin/settings\<close> to the endpoint of the route, and a request path \<open>q\<close>
  resolves to that endpoint exactly when the bytes of \<open>q\<close> other than \<open>/\<close> spell
  \<open>apiv1adminsettings\<close>; every other path resolves to no endpoint.
\<close>

theorem settings_route_paths:
  "\<exists>a t. settings_scenario h = Inr a \<and> trees a mGET = Some t
     \<and> tree_find t ''/api/v1/admin/settings'' =
         Inr (Some (Endpoint h ''/api/v1/admin/settings'' []), Map.empty)
     \<and> (\<forall>q. tree_find t q =
           (if filter (\<lambda>c. c \<noteq> CHR ''/'') q = ''apiv1adminsettings''
            then Inr (Some (Endpoint h ''/api/v1/admin/settings'' []), Map.empty)
            else Inr (None, Map.empty)))"
  by (simp add: settings_scenario_eval tree_find_settings_tree)

subsection \<open>C6: the parameter map\<close>

text \<open>
  Claim C6 says that a request that matches a registered pattern gets the parameter map
  of that pattern, whatever else is registered. In a tree that holds other routes the
  resolver can end at another route or at none. After \<open>/ab/c/:x\<close> and \<open>/abc/:y\<close> (both
  have the tokens \<open>abc\<close> and a parameter, so the second takes the node of the first),
  the request \<open>/ab/c/7\<close> matches \<open>/ab/c/:x\<close> and gets the map with the key \<open>y\<close>; after
  \<open>/a/:x\<close> and \<open>/a/*\<close> the request \<open>/a/c/d\<close> matches \<open>/a/*\<close> and gets no endpoint.
\<close>

theorem shared_tree_parameter_map_counterexample:
  "match_segments (pattern_segments ''/ab/c/:x'') ''ab/c/7'' = Some [''7'']
   \<and> segment_names (pattern_segments ''/ab/c/:x'') = [''x'']
   \<and> find_after [(''/ab/c/:x'', ''h1''), (''/abc/:y'', ''h2'')] ''/ab/c/7'' =
       Inr (Some (Endpoint ''h2'' ''/abc/:y'' [''y'']), [''y'' \<mapsto> ''7''])
   \<and> match_segments (pattern_segments ''/a/*'') ''a/c/d'' = Some [''c/d'']
   \<and> find_after [(''/a/:x'', ''h1''), (''/a/*'', ''h2'')] ''/a/c/d'' = Inr (None, Map.empty)"
proof (intro conjI)
  show "match_segments (pattern_segments ''/ab/c/:x'') ''ab/c/7'' = Some [''7'']" by code_simp
  show "segment_names (pattern_segments ''/ab/c/:x'') = [''x'']" by code_simp
  show "match_segments (pattern_segments ''/a/*'') ''a/c/d'' = Some [''c/d'']" by code_simp
  show "find_after [(''/ab/c/:x'', ''h1''), (''/abc/:y'', ''h2'')] ''/ab/c/7'' =
       Inr (Some (Endpoint ''h2'' ''/abc/:y'' [''y'']), [''y'' \<mapsto> ''7''])"
    by (simp add: find_after_def insert_all.simps eval_insert shared_facts tree_find_def)
  show "find_after [(''/a/:x'', ''h1''), (''/a/*'', ''h2'')] ''/a/c/d'' = Inr (None, Map.empty)"
    by (simp add: find_after_def insert_all.simps eval_insert shared_facts tree_find_def)
qed

text \<open>
  Claim C6, amended. For every valid pattern, registered in a tree of its own, and every
  request path that matches it segment by segment (\<open>match_segments\<close>, with the values
  \<open>vals\<close>), \<open>find\<close> returns the endpoint of the pattern and the parameter map whose keys
  are exactly the names of the dynamic segments of the pattern (\<open>*\<close> for the catch-all),
  the \<open>i\<close>-th name mapped to the \<open>i\<close>-th value matched; the names are distinct and as
  many as the values. The value of a catch-all is the rest of the request path, with
  its interior \<open>/\<close> and without the \<open>/\<close> in front: \<open>/files/*\<close> and the request
  \<open>/files/a/b/c\<close> give the map \<open>{"*": "a/b/c"}\<close>. The same holds through the router: on
  the fresh application, after \<open>Get(p).Handle(g)\<close> for a valid pattern that starts with a
  literal segment, the dispatcher calls \<open>g\<close> on a matching request with that map. In a
  tree shared with other routes a matching request can be resolved to another route or
  to none; there, whenever \<open>find\<close> returns an endpoint, the keys of the map are exactly
  the parameter names of the endpoint returned (in every application built by \<open>New\<close>,
  \<open>Router\<close> and registrations the endpoint carries a valid pattern and the keys are the
  names of the dynamic segments of that pattern), and every value is a non-empty piece
  of the request path. Two routes whose first edge is split, \<open>/users/:id\<close> and
  \<open>/use/:name\<close>, both get their own map.
\<close>

theorem find_parameter_map:
  "(isValidPath (cleanPath p) = Inr True \<and> match_segments (pattern_segments p) q = Some vals
      \<longrightarrow> (\<exists>t. tree_insert newTree p f = Inr t
             \<and> tree_find t (CHR ''/'' # q) =
                 Inr (Some (Endpoint f (cleanPath p) (segment_names (pattern_segments p))),
                      map_of (zip (segment_names (pattern_segments p)) vals))
             \<and> dom (map_of (zip (segment_names (pattern_segments p)) vals)) =
                 set (segment_names (pattern_segments p))
             \<and> distinct (segment_names (pattern_segments p))
             \<and> length vals = length (segment_names (pattern_segments p))))
   \<and> (tree_find t' q' = Inr (Some e, pm) \<longrightarrow> dom pm = set (pKeys e))
   \<and> (reachable a \<and> trees a m = Some t'' \<and> tree_find t'' q'' = Inr (Some e', pm')
      \<longrightarrow> isValidPath (fullPath e') = Inr True
          \<and> dom pm' = set (segment_names (pattern_segments (fullPath e'))))
   \<and> find_after [(''/files/*'', f)] ''/files/a/b/c'' =
       Inr (Some (Endpoint f ''/files/*'' [''*'']), [''*'' \<mapsto> ''a/b/c''])
   \<and> (isValidPath (cleanPath p) = Inr True \<and> isStaticSeg (hd (pattern_segments p))
        \<and> match_segments (pattern_segments p) q = Some vals
      \<longrightarrow> (\<exists>a1. Handle root_app (Get root_app root_router p []) g = Inr a1
             \<and> (\<forall>w. internalHandler a1 (get_request (CHR ''/'' # q)) w =
                    Inr (g ((get_request (CHR ''/'' # q))
                              \<lparr>reqParams :=
                                 Some (map_of (zip (segment_names (pattern_segments p)) vals))\<rparr>)
                           w))))
   \<and> (\<exists>a2. Handle root_app (Get root_app root_router ''/files/*'' []) g = Inr a2
          \<and> (\<forall>w. internalHandler a2 (get_request ''/files/a/b/c'') w =
                 Inr (g ((get_request ''/files/a/b/c'')\<lparr>reqParams := Some [''*'' \<mapsto> ''a/b/c'']\<rparr>)
                        w)))
   \<and> (tree_find t3 q3 = Inr (Some e3, pm3) \<and> pm3 k = Some v
      \<longrightarrow> v \<noteq> [] \<and> (\<exists>pre suf. q3 = pre @ v @ suf))
   \<and> find_after [(''/users/:id'', f), (''/use/:name'', f')] ''/users/42'' =
       Inr (Some (Endpoint f ''/users/:id'' [''id'']), [''id'' \<mapsto> ''42''])
   \<and> find_after [(''/users/:id'', f), (''/use/:name'', f')] ''/use/bob'' =
       Inr (Some (Endpoint f' ''/use/:name'' [''name'']), [''name'' \<mapsto> ''bob''])"
proof (intro conjI impI)
  assume a: "isValidPath (cleanPath p) = Inr True
             \<and> match_segments (pattern_segments p) q = Some vals"
  then obtain t where t: "tree_insert newTree p f = Inr t"
    "tree_find t (CHR ''/'' # q) =
       Inr (Some (Endpoint f (cleanPath p) (segment_names (pattern_segments p))),
            map_of (zip (segment_names (pattern_segments p)) vals))"
    "distinct (segment_names (pattern_segments p))"
    "length vals = length (segment_names (pattern_segments p))"
    using single_route_find [of p q vals f] by blast
  have "dom (map_of (zip (segment_names (pattern_segments p)) vals)) =
          set (segment_names (pattern_segments p))"
    using t(4) by (simp add: dom_map_of_zip)
  then show "\<exists>t. tree_insert newTree p f = Inr t
             \<and> tree_find t (CHR ''/'' # q) =
                 Inr (Some (Endpoint f (cleanPath p) (segment_names (pattern_segments p))),
                      map_of (zip (segment_names (pattern_segments p)) vals))
             \<and> dom (map_of (zip (segment_names (pattern_segments p)) vals)) =
                 set (segment_names (pattern_segments p))
             \<and> distinct (segment_names (pattern_segments p))
             \<and> length vals = length (segment_names (pattern_segments p))"
    using t by blast
next
  assume "tree_find t' q' = Inr (Some e, pm)"
  then show "dom pm = set (pKeys e)"
    by (auto simp: tree_find_def pMap_loop_dom split: sum.splits option.splits prod.splits)
next
  assume "reachable a \<and> trees a m = Some t'' \<and> tree_find t'' q'' = Inr (Some e', pm')"
  then show "isValidPath (fullPath e') = Inr True"
    using reachable_find_keys [of a m t'' q'' e' pm'] by blast
next
  assume "reachable a \<and> trees a m = Some t'' \<and> tree_find t'' q'' = Inr (Some e', pm')"
  then show "dom pm' = set (segment_names (pattern_segments (fullPath e')))"
    using reachable_find_keys [of a m t'' q'' e' pm'] by blast
next
  have v: "isValidPath (cleanPath ''/files/*'') = Inr True" by code_simp
  have m: "match_segments (pattern_segments ''/files/*'') ''files/a/b/c'' = Some [''a/b/c'']"
    by code_simp
  have c: "cleanPath ''/files/*'' = ''/files/*''"
    "segment_names (pattern_segments ''/files/*'') = [''*'']"
    by code_simp+
  obtain t where "tree_insert newTree ''/files/*'' f = Inr t"
    "tree_find t ''/files/a/b/c'' = Inr (Some (Endpoint f ''/files/*'' [''*'']), [''*'' \<mapsto> ''a/b/c''])"
    using single_route_find [OF v m, of f] c by auto
  then show "find_after [(''/files/*'', f)] ''/files/a/b/c'' =
       Inr (Some (Endpoint f ''/files/*'' [''*'']), [''*'' \<mapsto> ''a/b/c''])"
    by (simp add: find_after_def insert_all.simps)
next
  assume "isValidPath (cleanPath p) = Inr True \<and> isStaticSeg (hd (pattern_segments p))
        \<and> match_segments (pattern_segments p) q = Some vals"
  then show "\<exists>a1. Handle root_app (Get root_app root_router p []) g = Inr a1
             \<and> (\<forall>w. internalHandler a1 (get_request (CHR ''/'' # q)) w =
                    Inr (g ((get_request (CHR ''/'' # q))
                              \<lparr>reqParams :=
                                 Some (map_of (zip (segment_names (pattern_segments p)) vals))\<rparr>)
                           w))"
    using fresh_app_route_find [of p q vals "[]" "[]" g]
    by (auto simp: root_router_eq chainMws_foldr)
next
  have v: "isValidPath (cleanPath ''/files/*'') = Inr True" by code_simp
  have l: "isStaticSeg (hd (pattern_segments ''/files/*''))" by code_simp
  have m: "match_segments (pattern_segments ''/files/*'') ''files/a/b/c'' = Some [''a/b/c'']"
    by code_simp
  have n: "segment_names (pattern_segments ''/files/*'') = [''*'']" by code_simp
  show "\<exists>a2. Handle root_app (Get root_app root_router ''/files/*'' []) g = Inr a2
          \<and> (\<forall>w. internalHandler a2 (get_request ''/files/a/b/c'') w =
                 Inr (g ((get_request ''/files/a/b/c'')\<lparr>reqParams := Some [''*'' \<mapsto> ''a/b/c'']\<rparr>)
                        w))"
    using fresh_app_route_find [OF v l m, of "[]" "[]" g] n
    by (auto simp: root_router_eq chainMws_foldr)
next
  assume "tree_find t3 q3 = Inr (Some e3, pm3) \<and> pm3 k = Some v"
  then show "v \<noteq> []"
    using tree_find_values [of t3 q3 e3 pm3 k v] by blast
next
  assume "tree_find t3 q3 = Inr (Some e3, pm3) \<and> pm3 k = Some v"
  then show "\<exists>pre suf. q3 = pre @ v @ suf"
    using tree_find_values [of t3 q3 e3 pm3 k v] by blast
next
  show "find_after [(''/users/:id'', f), (''/use/:name'', f')] ''/users/42'' =
       Inr (Some (Endpoint f ''/users/:id'' [''id'']), [''id'' \<mapsto> ''42''])"
    by (rule users_use_find(1))
  show "find_after [(''/users/:id'', f), (''/use/:name'', f')] ''/use/bob'' =
       Inr (Some (Endpoint f' ''/use/:name'' [''name'']), [''name'' \<mapsto> ''bob''])"
    by (rule users_use_find(2))
qed

theorem find_parameter_map_witness:
  "isValidPath (cleanPath ''/users/:id/posts/:pid'') = Inr True
   \<and> match_segments (pattern_segments ''/users/:id/posts/:pid'') ''users/42/posts/7'' =
       Some [''42'', ''7'']
   \<and> (\<exists>t. tree_insert newTree ''/users/:id/posts/:pid'' ''h'' = Inr t
          \<and> tree_find t ''/users/42/posts/7'' =
              Inr (Some (Endpoint ''h'' ''/users/:id/posts/:pid'' [''id'', ''pid'']),
                   map_of [(''id'', ''42''), (''pid'', ''7'')]))"
proof -
  have v: "isValidPath (cleanPath ''/users/:id/posts/:pid'') = Inr True" by code_simp
  have m: "match_segments (pattern_segments ''/users/:id/posts/:pid'') ''users/42/posts/7'' =
       Some [''42'', ''7'']" by code_simp
  have c: "cleanPath ''/users/:id/posts/:pid'' = ''/users/:id/posts/:pid''"
    "segment_names (pattern_segments ''/users/:id/posts/:pid'') = [''id'', ''pid'']"
    by code_simp+
  show ?thesis
    using find_parameter_map [THEN conjunct1, of "''/users/:id/posts/:pid''"
        "''users/42/posts/7''" "[''42'', ''7'']" "''h''"] v m c
    by simp
qed

end
